theory Spec2Isabelle
  imports Main
begin

section \<open>Python lists and conversions used by the game\<close>

text \<open>
  The exceptions the modelled code can raise: an out-of-range subscript, a failed
  \<^verbatim>\<open>int(...)\<close> conversion or an impossible \<^verbatim>\<open>random.sample\<close>, and the solver's own
  \<^verbatim>\<open>raise Exception(msg)\<close>.
\<close>

datatype py_error = IndexError | ValueError | Exception string

type_synonym coord = "int \<times> int"

text \<open>
  A subscript \<^verbatim>\<open>xs[i]\<close> on a list of length \<open>n\<close>: indices \<open>0 .. n-1\<close> are taken as they
  are, indices \<open>-n .. -1\<close> count from the end, everything else raises IndexError.
\<close>

definition py_index :: "nat \<Rightarrow> int \<Rightarrow> nat option" where
  "py_index n i =
     (if 0 \<le> i \<and> i < int n then Some (nat i)
      else if - int n \<le> i \<and> i < 0 then Some (nat (int n + i))
      else None)"

definition py_get :: "'a list \<Rightarrow> int \<Rightarrow> py_error + 'a" where
  "py_get xs i = (case py_index (length xs) i of None \<Rightarrow> Inl IndexError | Some k \<Rightarrow> Inr (xs ! k))"

definition py_set :: "'a list \<Rightarrow> int \<Rightarrow> 'a \<Rightarrow> py_error + 'a list" where
  "py_set xs i v =
     (case py_index (length xs) i of None \<Rightarrow> Inl IndexError | Some k \<Rightarrow> Inr (xs[k := v]))"

text \<open>\<^verbatim>\<open>g[r][c]\<close> and \<^verbatim>\<open>g[r][c] = v\<close> on a list of rows (the rows are separate lists).\<close>

definition get2 :: "'a list list \<Rightarrow> int \<Rightarrow> int \<Rightarrow> py_error + 'a" where
  "get2 g r c = (case py_get g r of Inl e \<Rightarrow> Inl e | Inr row \<Rightarrow> py_get row c)"

definition set2 :: "'a list list \<Rightarrow> int \<Rightarrow> int \<Rightarrow> 'a \<Rightarrow> py_error + 'a list list" where
  "set2 g r c v =
     (case py_index (length g) r of
        None \<Rightarrow> Inl IndexError
      | Some k \<Rightarrow> (case py_set (g ! k) c v of Inl e \<Rightarrow> Inl e | Inr row \<Rightarrow> Inr (g[k := row])))"

text \<open>\<^verbatim>\<open>range(a, b)\<close> as the list of its values.\<close>

definition py_range :: "int \<Rightarrow> int \<Rightarrow> int list" where
  "py_range a b = [a..b - 1]"

text \<open>
  \<^verbatim>\<open>int(s)\<close> for a string: an optional sign followed by decimal digits. Python also accepts
  surrounding blanks, underscores between digits and non-ASCII digits; the board's
  \<^verbatim>\<open>get_solver_board\<close> never writes such strings, and here they count as malformed.
\<close>

definition is_digit :: "char \<Rightarrow> bool" where
  "is_digit ch = (48 \<le> (of_char ch :: nat) \<and> (of_char ch :: nat) \<le> 57)"

fun digits_val :: "string \<Rightarrow> int \<Rightarrow> int" where
  "digits_val [] acc = acc"
| "digits_val (ch # cs) acc = digits_val cs (10 * acc + (of_char ch - 48))"

definition py_int :: "string \<Rightarrow> py_error + int" where
  "py_int s =
     (case s of
        [] \<Rightarrow> Inl ValueError
      | ch # cs \<Rightarrow>
          if ch = CHR ''-'' \<or> ch = CHR ''+'' then
            (if cs \<noteq> [] \<and> list_all is_digit cs
             then Inr ((if ch = CHR ''-'' then - 1 else 1) * digits_val cs 0)
             else Inl ValueError)
          else if list_all is_digit s then Inr (digits_val s 0)
          else Inl ValueError)"


section \<open>The solver (Minesweeper\_AutoPlay.py)\<close>

type_synonym view = "string list list"

definition FLAGGED :: string where "FLAGGED = ''F''"
definition UNSEEN :: string where "UNSEEN = ''#''"

text \<open>
  The two nested loops of \<^verbatim>\<open>check\<close> over the 3x3 window around \<open>(t, k)\<close>, as one pass over
  the window's coordinates in loop order; \<open>flagged\<close> and \<open>unseen\<close> are the loop's two
  accumulators.
\<close>

fun check_window :: "view \<Rightarrow> int \<Rightarrow> int \<Rightarrow> coord list \<Rightarrow> int \<Rightarrow> coord list
    \<Rightarrow> py_error + (int \<times> coord list)" where
  "check_window board m n [] flagged unseen = Inr (flagged, unseen)"
| "check_window board m n ((i, j) # ps) flagged unseen =
     (if i \<ge> 0 \<and> j \<ge> 0 \<and> i < m \<and> j < n then
        (case get2 board i j of
           Inl e \<Rightarrow> Inl e
         | Inr s \<Rightarrow>
             check_window board m n ps
               (if s = FLAGGED then flagged + 1 else flagged)
               (if s = UNSEEN then unseen @ [(i, j)] else unseen))
      else check_window board m n ps flagged unseen)"

definition window :: "int \<Rightarrow> int \<Rightarrow> coord list" where
  "window t k = concat (map (\<lambda>i. map (\<lambda>j. (i, j)) (py_range (k - 1) (k + 2))) (py_range (t - 1) (t + 2)))"

text \<open>
  \<^verbatim>\<open>check\<close> returns \<^verbatim>\<open>-1\<close> (here \<open>None\<close>) or a pair \<^verbatim>\<open>(action, unseen)\<close>, action 0 for
  reveal and 1 for flag.
\<close>

definition check :: "view \<Rightarrow> int \<Rightarrow> int \<Rightarrow> int \<Rightarrow> int \<Rightarrow> py_error + (int \<times> coord list) option" where
  "check board t k m n =
     (case get2 board t k of
        Inl e \<Rightarrow> Inl e
      | Inr target \<Rightarrow>
          if target = UNSEEN \<or> target = FLAGGED then Inr None
          else
            (case py_int target of
               Inl e \<Rightarrow> Inl e
             | Inr v \<Rightarrow>
                 (let target_number = v - 0 in
                  case check_window board m n (window t k) 0 [] of
                    Inl e \<Rightarrow> Inl e
                  | Inr (flagged, unseen) \<Rightarrow>
                      if length unseen \<noteq> 0 then
                        (if flagged = target_number then Inr (Some (0, unseen))
                         else if target_number - flagged = int (length unseen)
                              then Inr (Some (1, unseen))
                         else Inr None)
                      else Inr None)))"

text \<open>
  The scan of \<^verbatim>\<open>solution\<close>: the cells still to visit in row-major order and the current
  \<^verbatim>\<open>doomsday_plan\<close>. The empty list is the code after the loops.
\<close>

fun solution_scan :: "view \<Rightarrow> int \<Rightarrow> int \<Rightarrow> coord list \<Rightarrow> coord \<Rightarrow> py_error + (int \<times> coord list)" where
  "solution_scan board m n [] doomsday_plan =
     (if doomsday_plan = (- 1, - 1)
      then Inl (Exception ''SOLUTION FUNCTION FAILUER: There is no unseen squer left!'')
      else Inr (0, [doomsday_plan]))"
| "solution_scan board m n ((i, j) # rest) doomsday_plan =
     (case check board i j m n of
        Inl e \<Rightarrow> Inl e
      | Inr result \<Rightarrow>
          (case get2 board i j of
             Inl e \<Rightarrow> Inl e
           | Inr s \<Rightarrow>
               (let plan = (if s = UNSEEN then (i, j) else doomsday_plan) in
                case result of
                  Some found \<Rightarrow> Inr found
                | None \<Rightarrow> solution_scan board m n rest plan)))"

definition scan_cells :: "int \<Rightarrow> int \<Rightarrow> coord list" where
  "scan_cells m n = concat (map (\<lambda>i. map (\<lambda>j. (i, j)) (py_range 0 n)) (py_range 0 m))"

definition solution :: "view \<Rightarrow> int \<Rightarrow> int \<Rightarrow> py_error + (int \<times> coord list)" where
  "solution board m n = solution_scan board m n (scan_cells m n) (- 1, - 1)"


section \<open>The board engine (Minesweeper.py, class Board)\<close>

text \<open>
  The attributes of a \<^verbatim>\<open>Board\<close> object. The three grids are lists of rows, subscripted as
  Python subscripts them; \<open>mines\<close> is the set of mine coordinates.
\<close>

record Board =
  rows :: int
  cols :: int
  mines_count :: int
  mines :: "coord set"
  revealed :: "bool list list"
  flagged :: "bool list list"
  board :: "int list list"
  placed :: bool
  game_over :: bool
  victory :: bool

definition MINE :: int where "MINE = - 1"

text \<open>\<^verbatim>\<open>[[x]*cols for _ in range(rows)]\<close>: a negative factor or range gives the empty list.\<close>

definition grid :: "int \<Rightarrow> int \<Rightarrow> 'a \<Rightarrow> 'a list list" where
  "grid r c x = replicate (nat r) (replicate (nat c) x)"

definition reset :: "Board \<Rightarrow> Board" where
  "reset b = b\<lparr>mines := {},
               revealed := grid (rows b) (cols b) False,
               flagged := grid (rows b) (cols b) False,
               board := grid (rows b) (cols b) 0,
               placed := False, game_over := False, victory := False\<rparr>"

text \<open>
  \<^verbatim>\<open>__init__\<close> stores its three arguments and calls \<^verbatim>\<open>reset\<close>; neither contains a check or a
  \<^verbatim>\<open>raise\<close>, so the result is always a board.
\<close>

definition Board_init :: "int \<Rightarrow> int \<Rightarrow> int \<Rightarrow> py_error + Board" where
  "Board_init r c k =
     Inr (reset \<lparr>rows = r, cols = c, mines_count = k, mines = {}, revealed = [], flagged = [],
                 board = [], placed = False, game_over = False, victory = False\<rparr>)"

definition in_bounds :: "Board \<Rightarrow> int \<Rightarrow> int \<Rightarrow> bool" where
  "in_bounds b r c = (0 \<le> r \<and> r < rows b \<and> 0 \<le> c \<and> c < cols b)"

text \<open>The generator \<^verbatim>\<open>neighbors\<close>, as the list of what it yields, in its order.\<close>

definition neighbors :: "Board \<Rightarrow> int \<Rightarrow> int \<Rightarrow> coord list" where
  "neighbors b r c =
     concat (map (\<lambda>dr. concat (map (\<lambda>dc.
        if dr = 0 \<and> dc = 0 then []
        else (let nr = r + dr; nc = c + dc in if in_bounds b nr nc then [(nr, nc)] else []))
      [- 1, 0, 1])) [- 1, 0, 1])"

text \<open>The cells in the order of \<^verbatim>\<open>for r in range(rows) for c in range(cols)\<close>.\<close>

definition cells_of :: "Board \<Rightarrow> coord list" where
  "cells_of b = concat (map (\<lambda>r. map (\<lambda>c. (r, c)) (py_range 0 (cols b))) (py_range 0 (rows b)))"

definition safe_zone :: "Board \<Rightarrow> int \<Rightarrow> int \<Rightarrow> coord set" where
  "safe_zone b safe_r safe_c = insert (safe_r, safe_c) (set (neighbors b safe_r safe_c))"

definition available :: "Board \<Rightarrow> int \<Rightarrow> int \<Rightarrow> coord list" where
  "available b safe_r safe_c = filter (\<lambda>pos. pos \<notin> safe_zone b safe_r safe_c) (cells_of b)"

text \<open>
  \<^verbatim>\<open>random.sample(population, k)\<close> raises ValueError unless \<open>0 \<le> k \<le> len(population)\<close> and
  otherwise returns \<open>k\<close> elements picked at distinct positions. The model takes the list
  returned as an argument, \<open>picked\<close>; \<open>sample_of\<close> says that a list is a possible outcome
  (the population here, \<open>available\<close>, has no repetitions).
\<close>

definition sample_of :: "'a list \<Rightarrow> int \<Rightarrow> 'a list \<Rightarrow> bool" where
  "sample_of population k picked =
     (int (length picked) = k \<and> distinct picked \<and> set picked \<subseteq> set population)"

text \<open>
  The two loops of \<^verbatim>\<open>place_mines\<close>: writing \<open>MINE\<close> at every mine (the loop runs over the set
  of mines, here in the order of the sample), then the count of mine neighbours into
  every cell that does not hold \<open>MINE\<close>.
\<close>

fun mark_mines :: "int list list \<Rightarrow> coord list \<Rightarrow> py_error + int list list" where
  "mark_mines g [] = Inr g"
| "mark_mines g ((r, c) # ps) =
     (case set2 g r c MINE of Inl e \<Rightarrow> Inl e | Inr g' \<Rightarrow> mark_mines g' ps)"

fun fill_counts :: "Board \<Rightarrow> int list list \<Rightarrow> coord list \<Rightarrow> py_error + int list list" where
  "fill_counts b g [] = Inr g"
| "fill_counts b g ((r, c) # ps) =
     (case get2 g r c of
        Inl e \<Rightarrow> Inl e
      | Inr v \<Rightarrow>
          if v = MINE then fill_counts b g ps
          else (let count = int (length (filter (\<lambda>q. q \<in> mines b) (neighbors b r c))) in
                case set2 g r c count of Inl e \<Rightarrow> Inl e | Inr g' \<Rightarrow> fill_counts b g' ps))"

definition place_mines :: "Board \<Rightarrow> int \<Rightarrow> int \<Rightarrow> coord list \<Rightarrow> py_error + Board" where
  "place_mines b safe_r safe_c picked =
     (if mines_count b < 0 \<or> int (length (available b safe_r safe_c)) < mines_count b
      then Inl ValueError
      else
        (let b1 = b\<lparr>mines := set picked\<rparr> in
         case mark_mines (board b1) picked of
           Inl e \<Rightarrow> Inl e
         | Inr g1 \<Rightarrow>
             (case fill_counts b1 g1 (cells_of b1) of
                Inl e \<Rightarrow> Inl e
              | Inr g2 \<Rightarrow> Inr (b1\<lparr>board := g2, placed := True\<rparr>))))"

text \<open>The sum in \<^verbatim>\<open>check_victory\<close>, over the cells in loop order.\<close>

fun count_revealed :: "bool list list \<Rightarrow> coord list \<Rightarrow> py_error + int" where
  "count_revealed g [] = Inr 0"
| "count_revealed g ((r, c) # ps) =
     (case get2 g r c of
        Inl e \<Rightarrow> Inl e
      | Inr x \<Rightarrow>
          (case count_revealed g ps of
             Inl e \<Rightarrow> Inl e
           | Inr k \<Rightarrow> Inr ((if x then 1 else 0) + k)))"

definition check_victory :: "Board \<Rightarrow> py_error + Board" where
  "check_victory b =
     (if game_over b then Inr b
      else
        (case count_revealed (revealed b) (cells_of b) of
           Inl e \<Rightarrow> Inl e
         | Inr revealed_count \<Rightarrow>
             if revealed_count = rows b * cols b - mines_count b
             then Inr (b\<lparr>game_over := True, victory := True\<rparr>)
             else Inr b))"

text \<open>
  The cascade of \<^verbatim>\<open>reveal\<close>. The stack is kept with its top first: \<^verbatim>\<open>stack.pop()\<close> takes the
  head and \<^verbatim>\<open>stack.append(x)\<close> puts \<open>x\<close> in front. \<open>push_neighbors\<close> is the inner
  \<^verbatim>\<open>for\<close> loop; \<^verbatim>\<open>and\<close> reads \<open>flagged\<close> only when the cell is not revealed.
\<close>

fun push_neighbors :: "Board \<Rightarrow> coord list \<Rightarrow> coord list \<Rightarrow> py_error + coord list" where
  "push_neighbors b [] stack = Inr stack"
| "push_neighbors b ((nr, nc) # ns) stack =
     (case get2 (revealed b) nr nc of
        Inl e \<Rightarrow> Inl e
      | Inr seen \<Rightarrow>
          if seen then push_neighbors b ns stack
          else
            (case get2 (flagged b) nr nc of
               Inl e \<Rightarrow> Inl e
             | Inr marked \<Rightarrow>
                 if marked then push_neighbors b ns stack
                 else push_neighbors b ns ((nr, nc) # stack)))"

text \<open>
  The \<^verbatim>\<open>while stack\<close> loop ends: every turn either drops a stack entry or turns one more
  cell of \<open>revealed\<close> from False to True.
\<close>

definition unrevealed :: "bool list list \<Rightarrow> nat" where
  "unrevealed g = length (filter (\<lambda>x. \<not> x) (concat g))"

lemma py_index_less: "py_index n i = Some k \<Longrightarrow> k < n"
  by (auto simp: py_index_def split: if_splits)

lemma unrevealed_row:
  "l < length xs \<Longrightarrow> \<not> xs ! l \<Longrightarrow>
     length (filter (\<lambda>x. \<not> x) (xs[l := True])) < length (filter (\<lambda>x. \<not> x) xs)"
proof (induction xs arbitrary: l)
  case Nil
  then show ?case by simp
next
  case (Cons x xs)
  then show ?case by (cases l) auto
qed

lemma unrevealed_update:
  "k < length g \<Longrightarrow> l < length (g ! k) \<Longrightarrow> \<not> g ! k ! l \<Longrightarrow>
     unrevealed (g[k := (g ! k)[l := True]]) < unrevealed g"
proof (induction g arbitrary: k)
  case Nil
  then show ?case by simp
next
  case (Cons row g)
  show ?case
  proof (cases k)
    case 0
    with Cons.prems show ?thesis using unrevealed_row [of l row] by (simp add: unrevealed_def)
  next
    case (Suc k')
    with Cons.prems Cons.IH [of k'] show ?thesis by (simp add: unrevealed_def)
  qed
qed

lemma unrevealed_set2:
  assumes "get2 g r c = Inr False" "set2 g r c True = Inr g'"
  shows "unrevealed g' < unrevealed g"
proof -
  from assms(1) obtain k l where k: "py_index (length g) r = Some k"
    and l: "py_index (length (g ! k)) c = Some l" and x: "\<not> g ! k ! l"
    by (auto simp: get2_def py_get_def split: option.splits)
  from assms(2) k l have "g' = g[k := (g ! k)[l := True]]"
    by (simp add: set2_def py_set_def)
  with unrevealed_update [OF py_index_less [OF k] py_index_less [OF l] x] show ?thesis by simp
qed

function cascade :: "Board \<Rightarrow> coord list \<Rightarrow> py_error + Board" where
  "cascade b [] = Inr b"
| "cascade b ((cr, cc) # stack) =
     (case get2 (revealed b) cr cc of
        Inl e \<Rightarrow> Inl e
      | Inr seen \<Rightarrow>
          if seen then cascade b stack
          else
            (case set2 (revealed b) cr cc True of
               Inl e \<Rightarrow> Inl e
             | Inr rv \<Rightarrow>
                 (case get2 (board b) cr cc of
                    Inl e \<Rightarrow> Inl e
                  | Inr v \<Rightarrow>
                      if v = 0 then
                        (case push_neighbors (b\<lparr>revealed := rv\<rparr>)
                                (neighbors b cr cc) stack of
                           Inl e \<Rightarrow> Inl e
                         | Inr stack' \<Rightarrow> cascade (b\<lparr>revealed := rv\<rparr>) stack')
                      else cascade (b\<lparr>revealed := rv\<rparr>) stack)))"
  by pat_completeness auto
termination
  by (relation "measures [\<lambda>(b, stack). unrevealed (revealed b), \<lambda>(b, stack). length stack]")
     (auto dest: unrevealed_set2)

text \<open>
  The first line of \<^verbatim>\<open>reveal\<close>; \<^verbatim>\<open>or\<close> evaluates from the left and stops at the first true
  operand, so a finished game reads no subscript.
\<close>

definition reveal_guard :: "Board \<Rightarrow> int \<Rightarrow> int \<Rightarrow> py_error + bool" where
  "reveal_guard b r c =
     (if game_over b then Inr True
      else
        (case get2 (flagged b) r c of
           Inl e \<Rightarrow> Inl e
         | Inr marked \<Rightarrow> if marked then Inr True else get2 (revealed b) r c))"

definition reveal :: "Board \<Rightarrow> int \<Rightarrow> int \<Rightarrow> coord list \<Rightarrow> py_error + Board" where
  "reveal b r c picked =
     (case reveal_guard b r c of
        Inl e \<Rightarrow> Inl e
      | Inr skip \<Rightarrow>
          if skip then Inr b
          else
            (case (if \<not> placed b then place_mines b r c picked else Inr b) of
               Inl e \<Rightarrow> Inl e
             | Inr b1 \<Rightarrow>
                 if (r, c) \<in> mines b1 then
                   (case set2 (revealed b1) r c True of
                      Inl e \<Rightarrow> Inl e
                    | Inr rv \<Rightarrow> Inr (b1\<lparr>revealed := rv, game_over := True, victory := False\<rparr>))
                 else
                   (case cascade b1 [(r, c)] of
                      Inl e \<Rightarrow> Inl e
                    | Inr b2 \<Rightarrow> check_victory b2)))"

definition toggle_flag :: "Board \<Rightarrow> int \<Rightarrow> int \<Rightarrow> py_error + Board" where
  "toggle_flag b r c =
     (if game_over b then Inr b
      else
        (case get2 (revealed b) r c of
           Inl e \<Rightarrow> Inl e
         | Inr seen \<Rightarrow>
             if seen then Inr b
             else
               (case get2 (flagged b) r c of
                  Inl e \<Rightarrow> Inl e
                | Inr marked \<Rightarrow>
                    (case set2 (flagged b) r c (\<not> marked) of
                       Inl e \<Rightarrow> Inl e
                     | Inr fl \<Rightarrow> check_victory (b\<lparr>flagged := fl\<rparr>)))))"


section \<open>The classifier and the end of a game (Minesweeper.py, class MinesweeperGUI)\<close>

text \<open>\<^verbatim>\<open>str(n)\<close> for an integer: its decimal digits, with a minus sign when negative.\<close>

fun nat_str :: "nat \<Rightarrow> string" where
  "nat_str n =
     (if n < 10 then [char_of (48 + n)] else nat_str (n div 10) @ [char_of (48 + n mod 10)])"

declare nat_str.simps [simp del]

definition py_str :: "int \<Rightarrow> string" where
  "py_str i = (if i < 0 then CHR ''-'' # nat_str (nat (- i)) else nat_str (nat i))"

text \<open>
  \<^verbatim>\<open>end_game\<close> marks every cell revealed before the board is shown; the interface keeps
  \<open>rows\<close> and \<open>cols\<close> equal to the board's.
\<close>

fun reveal_all :: "bool list list \<Rightarrow> coord list \<Rightarrow> py_error + bool list list" where
  "reveal_all g [] = Inr g"
| "reveal_all g ((r, c) # ps) =
     (case set2 g r c True of Inl e \<Rightarrow> Inl e | Inr g' \<Rightarrow> reveal_all g' ps)"

definition end_game :: "Board \<Rightarrow> py_error + Board" where
  "end_game b =
     (case reveal_all (revealed b) (cells_of b) of
        Inl e \<Rightarrow> Inl e
      | Inr g \<Rightarrow> Inr (b\<lparr>revealed := g\<rparr>))"

text \<open>\<^verbatim>\<open>get_solver_board\<close>: one symbol for each cell, row by row.\<close>

definition solver_cell :: "Board \<Rightarrow> int \<Rightarrow> int \<Rightarrow> py_error + string" where
  "solver_cell b r c =
     (case get2 (flagged b) r c of
        Inl e \<Rightarrow> Inl e
      | Inr marked \<Rightarrow>
          if marked then Inr FLAGGED
          else
            (case get2 (revealed b) r c of
               Inl e \<Rightarrow> Inl e
             | Inr seen \<Rightarrow>
                 if \<not> seen then Inr UNSEEN
                 else
                   (case get2 (board b) r c of
                      Inl e \<Rightarrow> Inl e
                    | Inr val \<Rightarrow> if val = MINE then Inr ''*'' else Inr (py_str val))))"

fun solver_row :: "Board \<Rightarrow> int \<Rightarrow> int list \<Rightarrow> py_error + string list" where
  "solver_row b r [] = Inr []"
| "solver_row b r (c # cs) =
     (case solver_cell b r c of
        Inl e \<Rightarrow> Inl e
      | Inr s \<Rightarrow>
          (case solver_row b r cs of Inl e \<Rightarrow> Inl e | Inr row \<Rightarrow> Inr (s # row)))"

fun solver_rows :: "Board \<Rightarrow> int list \<Rightarrow> py_error + view" where
  "solver_rows b [] = Inr []"
| "solver_rows b (r # rs) =
     (case solver_row b r (py_range 0 (cols b)) of
        Inl e \<Rightarrow> Inl e
      | Inr row \<Rightarrow>
          (case solver_rows b rs of Inl e \<Rightarrow> Inl e | Inr rows' \<Rightarrow> Inr (row # rows')))"

definition get_solver_board :: "Board \<Rightarrow> py_error + view" where
  "get_solver_board b = solver_rows b (py_range 0 (rows b))"


section \<open>Notions the properties are stated with\<close>

text \<open>
  The symbols of a view besides \<open>UNSEEN\<close> and \<open>FLAGGED\<close>: the digits \<open>0\<close> to \<open>8\<close> that
  \<^verbatim>\<open>str(val)\<close> gives for a count, and the mine symbol.
\<close>

definition count_syms :: "string list" where
  "count_syms = [''0'', ''1'', ''2'', ''3'', ''4'', ''5'', ''6'', ''7'', ''8'']"

definition is_count :: "string \<Rightarrow> bool" where
  "is_count s = (s \<in> set count_syms)"

definition MINE_SYM :: string where "MINE_SYM = ''*''"

text \<open>
  Coordinates of an \<open>m\<close> x \<open>n\<close> view and the symbol a view holds there.
\<close>

definition in_view :: "int \<Rightarrow> int \<Rightarrow> coord \<Rightarrow> bool" where
  "in_view m n p = (0 \<le> fst p \<and> fst p < m \<and> 0 \<le> snd p \<and> snd p < n)"

definition sym :: "view \<Rightarrow> coord \<Rightarrow> string" where
  "sym v p = v ! nat (fst p) ! nat (snd p)"

definition view_shape :: "view \<Rightarrow> int \<Rightarrow> int \<Rightarrow> bool" where
  "view_shape v m n = (int (length v) = m \<and> (\<forall>row \<in> set v. int (length row) = n))"

text \<open>
  A classified view of an \<open>m\<close> x \<open>n\<close> board: \<open>m\<close> rows of \<open>n\<close> symbols, each unseen, flagged,
  mine or a count. The classifier writes the mine symbol only for a revealed mine, and the
  game reveals a mine only when it is over, where \<^verbatim>\<open>end_game\<close> reveals every cell before
  the next view is taken: a view that shows a mine shows no unseen cell.
\<close>

definition classified_view :: "view \<Rightarrow> int \<Rightarrow> int \<Rightarrow> bool" where
  "classified_view v m n =
     (view_shape v m n \<and>
      (\<forall>s \<in> set (concat v). s = UNSEEN \<or> s = FLAGGED \<or> s = MINE_SYM \<or> is_count s) \<and>
      (MINE_SYM \<in> set (concat v) \<longrightarrow> UNSEEN \<notin> set (concat v)))"

text \<open>
  The in-bounds neighbours of a cell, the unseen ones among them (\<open>U\<close>, in the order of
  the window) and the number of flagged ones (\<open>F\<close>); \<open>deducing\<close> says that a cell is a count
  cell \<open>N\<close> with \<open>U\<close> non-empty and \<open>F = N\<close> or \<open>N - F = |U|\<close>, and \<open>deduction\<close> is what the
  two rules then give.
\<close>

definition neighbours8 :: "int \<Rightarrow> int \<Rightarrow> coord \<Rightarrow> coord list" where
  "neighbours8 m n p = filter (\<lambda>q. q \<noteq> p \<and> in_view m n q) (window (fst p) (snd p))"

definition unseen_nbrs :: "view \<Rightarrow> int \<Rightarrow> int \<Rightarrow> coord \<Rightarrow> coord list" where
  "unseen_nbrs v m n p = filter (\<lambda>q. sym v q = UNSEEN) (neighbours8 m n p)"

definition flagged_nbrs :: "view \<Rightarrow> int \<Rightarrow> int \<Rightarrow> coord \<Rightarrow> int" where
  "flagged_nbrs v m n p = int (length (filter (\<lambda>q. sym v q = FLAGGED) (neighbours8 m n p)))"

definition count_of :: "string \<Rightarrow> int" where
  "count_of s = digits_val s 0"

definition deducing :: "view \<Rightarrow> int \<Rightarrow> int \<Rightarrow> coord \<Rightarrow> bool" where
  "deducing v m n p =
     (is_count (sym v p) \<and> unseen_nbrs v m n p \<noteq> [] \<and>
      (flagged_nbrs v m n p = count_of (sym v p) \<or>
       count_of (sym v p) - flagged_nbrs v m n p = int (length (unseen_nbrs v m n p))))"

definition deduction :: "view \<Rightarrow> int \<Rightarrow> int \<Rightarrow> coord \<Rightarrow> int \<times> coord list" where
  "deduction v m n p =
     (if flagged_nbrs v m n p = count_of (sym v p) then (0, unseen_nbrs v m n p)
      else (1, unseen_nbrs v m n p))"

text \<open>
  The value of \<^verbatim>\<open>doomsday_plan\<close> after the scan has passed the given cells.
\<close>

definition last_unseen :: "view \<Rightarrow> coord list \<Rightarrow> coord \<Rightarrow> coord" where
  "last_unseen v cells d = foldl (\<lambda>plan q. if sym v q = UNSEEN then q else plan) d cells"

text \<open>Views used as concrete inputs below.\<close>

definition view1 :: view where
  "view1 = [[''F'', ''1'', ''#''], [''#'', ''2'', ''1'']]"

definition won_view :: view where
  "won_view = [[''0'', ''0'', ''1'', ''*'']]"

definition lost_view :: view where
  "lost_view = [[''0'', ''1'', ''*'', ''2'', ''*'']]"

text \<open>
  A grid of \<open>r\<close> rows of \<open>c\<close> entries, and a board whose three grids have the shape
  \<^verbatim>\<open>reset\<close> gave them; \<open>at\<close> and \<open>upd\<close> read and write a grid at an in-bounds coordinate.
\<close>

definition shape :: "'a list list \<Rightarrow> int \<Rightarrow> int \<Rightarrow> bool" where
  "shape g r c = (length g = nat r \<and> (\<forall>row \<in> set g. length row = nat c))"

definition wf :: "Board \<Rightarrow> bool" where
  "wf b = (shape (revealed b) (rows b) (cols b) \<and> shape (flagged b) (rows b) (cols b) \<and>
           shape (board b) (rows b) (cols b))"

definition at :: "'a list list \<Rightarrow> coord \<Rightarrow> 'a" where
  "at g p = g ! nat (fst p) ! nat (snd p)"

definition upd :: "'a list list \<Rightarrow> coord \<Rightarrow> 'a \<Rightarrow> 'a list list" where
  "upd g p v = g[nat (fst p) := (g ! nat (fst p))[nat (snd p) := v]]"

text \<open>
  The coordinates of the grid, and the cell that a pair of Python subscripts addresses
  (none when a subscript is out of range).
\<close>

definition inside :: "int \<Rightarrow> int \<Rightarrow> coord \<Rightarrow> bool" where
  "inside r c p = (0 \<le> fst p \<and> fst p < r \<and> 0 \<le> snd p \<and> snd p < c)"

definition wrap :: "int \<Rightarrow> int \<Rightarrow> coord \<Rightarrow> coord option" where
  "wrap r c p =
     (case py_index (nat r) (fst p) of
        None \<Rightarrow> None
      | Some k \<Rightarrow> (case py_index (nat c) (snd p) of None \<Rightarrow> None | Some l \<Rightarrow> Some (int k, int l)))"

text \<open>
  The count that \<^verbatim>\<open>place_mines\<close> computes for a cell.
\<close>

definition mines_around :: "Board \<Rightarrow> coord \<Rightarrow> int" where
  "mines_around b p = int (length (filter (\<lambda>q. q \<in> mines b) (neighbors b (fst p) (snd p))))"

text \<open>
  The number of revealed cells, as \<^verbatim>\<open>check_victory\<close> counts them, and the number it is
  compared with.
\<close>

definition revealed_count :: "Board \<Rightarrow> int" where
  "revealed_count b = int (length (filter (at (revealed b)) (cells_of b)))"

definition target :: "Board \<Rightarrow> int" where
  "target b = rows b * cols b - mines_count b"

text \<open>
  Every stack entry addresses an unflagged cell; the cells revealed in \<open>new\<close> and not in
  \<open>old\<close> are unflagged.
\<close>

definition stack_unflagged :: "Board \<Rightarrow> coord list \<Rightarrow> bool" where
  "stack_unflagged b stack =
     (\<forall>s \<in> set stack. \<forall>p. wrap (rows b) (cols b) s = Some p \<longrightarrow> \<not> at (flagged b) p)"

definition new_unflagged :: "Board \<Rightarrow> bool list list \<Rightarrow> bool list list \<Rightarrow> bool" where
  "new_unflagged b old new =
     (\<forall>q. inside (rows b) (cols b) q \<longrightarrow> at new q \<longrightarrow> at old q \<or> \<not> at (flagged b) q)"

text \<open>What the placement step of a reveal leaves: the board as it was when mines were
  already placed, otherwise the board with the sampled mines and the counts written.\<close>

definition placing :: "Board \<Rightarrow> int \<Rightarrow> int \<Rightarrow> coord list \<Rightarrow> Board \<Rightarrow> bool" where
  "placing b r c picked b1 =
     (if placed b then b1 = b
      else (\<exists>g. b1 = b\<lparr>mines := set picked, board := g, placed := True\<rparr> \<and>
                sample_of (available b r c) (mines_count b) picked \<and>
                shape g (rows b) (cols b) \<and>
                (\<forall>q. inside (rows b) (cols b) q \<longrightarrow>
                   at g q = (if q \<in> set picked \<or> at (board b) q = MINE then MINE
                             else mines_around (b\<lparr>mines := set picked\<rparr>) q))))"

text \<open>
  The boards reachable from a freshly constructed one by calls of \<^verbatim>\<open>reveal\<close> and
  \<^verbatim>\<open>toggle_flag\<close> that return, with any coordinates. A call that raises does so in its
  guard or in the sampling, before its first assignment, and leaves the board as it was.
\<close>

inductive reachable :: "Board \<Rightarrow> bool" where
  fresh: "Board_init r c k = Inr b \<Longrightarrow> reachable b"
| revealed: "reachable b \<Longrightarrow> placed b \<or> sample_of (available b r c) (mines_count b) picked \<Longrightarrow>
     reveal b r c picked = Inr b' \<Longrightarrow> reachable b'"
| toggled: "reachable b \<Longrightarrow> toggle_flag b r c = Inr b' \<Longrightarrow> reachable b'"

text \<open>
  No cell of the grid is both flagged and revealed.
\<close>

definition exclusive :: "Board \<Rightarrow> bool" where
  "exclusive b = (\<forall>p. inside (rows b) (cols b) p \<longrightarrow> \<not> (at (flagged b) p \<and> at (revealed b) p))"

text \<open>
  A game on a 1x5 board with two mines: fresh, after the reveal of \<open>(0, 0)\<close> with the
  mines sampled at \<open>(0, 2)\<close> and \<open>(0, 4)\<close>, and after the reveal of the mine at \<open>(0, 2)\<close>.
\<close>

definition game0 :: Board where
  "game0 = \<lparr>rows = 1, cols = 5, mines_count = 2, mines = {},
     revealed = [[False, False, False, False, False]],
     flagged = [[False, False, False, False, False]],
     board = [[0, 0, 0, 0, 0]], placed = False, game_over = False, victory = False\<rparr>"

definition game1 :: Board where
  "game1 = \<lparr>rows = 1, cols = 5, mines_count = 2, mines = {(0, 2), (0, 4)},
     revealed = [[True, True, False, False, False]],
     flagged = [[False, False, False, False, False]],
     board = [[0, 1, - 1, 2, - 1]], placed = True, game_over = False, victory = False\<rparr>"

definition game_lost :: Board where
  "game_lost = \<lparr>rows = 1, cols = 5, mines_count = 2, mines = {(0, 2), (0, 4)},
     revealed = [[True, True, True, False, False]],
     flagged = [[False, False, False, False, False]],
     board = [[0, 1, - 1, 2, - 1]], placed = True, game_over = True, victory = False\<rparr>"

text \<open>
  Two different cells that touch by a side or a corner.
\<close>

definition adjacent :: "coord \<Rightarrow> coord \<Rightarrow> bool" where
  "adjacent p q = (p \<noteq> q \<and> \<bar>fst p - fst q\<bar> \<le> 1 \<and> \<bar>snd p - snd q\<bar> \<le> 1)"

text \<open>
  The mine layout of a board: no mines and all counts 0 before placement;
  afterwards \<open>mines_count\<close> mines inside the grid, \<open>MINE\<close> stored at each and the count of
  mine neighbours at every other cell.
\<close>

definition layout_ok :: "Board \<Rightarrow> bool" where
  "layout_ok b =
     (mines b \<subseteq> {p. inside (rows b) (cols b) p} \<and>
      (\<not> placed b \<longrightarrow> mines b = {} \<and> (\<forall>q. inside (rows b) (cols b) q \<longrightarrow> at (board b) q = 0)) \<and>
      (placed b \<longrightarrow> int (card (mines b)) = mines_count b \<and>
         (\<forall>q. inside (rows b) (cols b) q \<longrightarrow>
            at (board b) q = (if q \<in> mines b then MINE else mines_around b q))))"

text \<open>
  The outcome of a board against its count of revealed cells.
\<close>

definition win_ok :: "Board \<Rightarrow> bool" where
  "win_ok b =
     ((victory b \<longrightarrow> game_over b \<and> revealed_count b = target b) \<and>
      (revealed_count b = target b \<longrightarrow> game_over b \<or> b = reset b) \<and>
      (game_over b \<and> \<not> victory b \<longrightarrow> (\<exists>p \<in> mines b. at (revealed b) p)))"

text \<open>
  The eight coordinates around a cell, in the order \<^verbatim>\<open>neighbors\<close> visits them.
\<close>

definition offsets :: "int \<Rightarrow> int \<Rightarrow> coord list" where
  "offsets r c = [(r - 1, c - 1), (r - 1, c), (r - 1, c + 1), (r, c - 1), (r, c + 1),
                  (r + 1, c - 1), (r + 1, c), (r + 1, c + 1)]"

text \<open>
  A game on a 1x4 board with one mine: won by the reveal of \<open>(0, 0)\<close> with the mine
  sampled at \<open>(0, 3)\<close>, and the fresh board it started from.
\<close>

definition game_won :: Board where
  "game_won = \<lparr>rows = 1, cols = 4, mines_count = 1, mines = {(0, 3)},
     revealed = [[True, True, True, False]],
     flagged = [[False, False, False, False]],
     board = [[0, 0, 1, - 1]], placed = True, game_over = True, victory = True\<rparr>"

definition game_w0 :: Board where
  "game_w0 = \<lparr>rows = 1, cols = 4, mines_count = 1, mines = {},
     revealed = [[False, False, False, False]],
     flagged = [[False, False, False, False]],
     board = [[0, 0, 0, 0]], placed = False, game_over = False, victory = False\<rparr>"

text \<open>
  The fresh 1x1 board with one mine.
\<close>

definition tiny :: Board where
  "tiny = \<lparr>rows = 1, cols = 1, mines_count = 1, mines = {}, revealed = [[False]],
     flagged = [[False]], board = [[0]], placed = False, game_over = False, victory = False\<rparr>"

text \<open>
  The cell that valid subscripts \<open>(r, c)\<close> address, and which subscripts are valid.
\<close>

definition wrapped :: "Board \<Rightarrow> int \<Rightarrow> int \<Rightarrow> coord" where
  "wrapped b r c = (r mod rows b, c mod cols b)"

definition valid_subscripts :: "Board \<Rightarrow> int \<Rightarrow> int \<Rightarrow> bool" where
  "valid_subscripts b r c = (- rows b \<le> r \<and> r < rows b \<and> - cols b \<le> c \<and> c < cols b)"

text \<open>
  The 1x5 game after \<^verbatim>\<open>reveal(0, -1)\<close>: the subscript \<open>-1\<close> addresses the mine at \<open>(0, 4)\<close>,
  \<open>(0, -1)\<close> is not in the set of mines, and the cell is revealed as a safe one.
\<close>

definition game1_wrapped :: Board where
  "game1_wrapped = \<lparr>rows = 1, cols = 5, mines_count = 2, mines = {(0, 2), (0, 4)},
     revealed = [[True, True, False, False, True]],
     flagged = [[False, False, False, False, False]],
     board = [[0, 1, - 1, 2, - 1]], placed = True, game_over = True, victory = True\<rparr>"

text \<open>
  The cascade as a graph search: a cell is open when it is neither revealed nor flagged,
  the cascade steps from an open zero-count cell to an open neighbour, and \<open>reach b S\<close>
  is what such steps reach from the open cells of \<open>S\<close>.
\<close>

definition open_cell :: "Board \<Rightarrow> coord \<Rightarrow> bool" where
  "open_cell b q = (inside (rows b) (cols b) q \<and> \<not> at (revealed b) q \<and> \<not> at (flagged b) q)"

definition spread :: "Board \<Rightarrow> (coord \<times> coord) set" where
  "spread b = {(x, y). open_cell b x \<and> at (board b) x = 0 \<and> adjacent x y \<and> open_cell b y}"

definition reach :: "Board \<Rightarrow> coord set \<Rightarrow> coord set" where
  "reach b S = {q. \<exists>s \<in> S. open_cell b s \<and> (s, q) \<in> (spread b)\<^sup>*}"

definition revealed_cells :: "Board \<Rightarrow> coord set" where
  "revealed_cells b = {q. inside (rows b) (cols b) q \<and> at (revealed b) q}"

text \<open>
  The maximal connected zero-count region of a cell and its border: the cells reached
  through neighbouring zero-count cells, and the other cells next to one of them.
\<close>

definition zero_link :: "Board \<Rightarrow> (coord \<times> coord) set" where
  "zero_link b = {(x, y). inside (rows b) (cols b) x \<and> inside (rows b) (cols b) y \<and>
                          at (board b) x = 0 \<and> at (board b) y = 0 \<and> adjacent x y}"

definition region :: "Board \<Rightarrow> coord \<Rightarrow> coord set" where
  "region b s = {q. (s, q) \<in> (zero_link b)\<^sup>*}"

definition border :: "Board \<Rightarrow> coord \<Rightarrow> coord set" where
  "border b s = {q. inside (rows b) (cols b) q \<and> at (board b) q \<noteq> 0 \<and>
                    (\<exists>x \<in> region b s. adjacent x q)}"

text \<open>
  The edges of a graph that do not touch \<open>p\<close>.
\<close>

definition avoiding :: "('a \<times> 'a) set \<Rightarrow> 'a \<Rightarrow> ('a \<times> 'a) set" where
  "avoiding E p = {(x, y). (x, y) \<in> E \<and> x \<noteq> p \<and> y \<noteq> p}"

text \<open>
  Every stack entry is an unflagged cell of the grid.
\<close>

definition stack_open :: "Board \<Rightarrow> coord list \<Rightarrow> bool" where
  "stack_open b stack = (\<forall>s \<in> set stack. inside (rows b) (cols b) s \<and> \<not> at (flagged b) s)"

text \<open>
  A game on a 1x7 board with one mine, sampled at \<open>(0, 2)\<close>: fresh, after the reveal of
  \<open>(0, 0)\<close>, then after the reveal of \<open>(0, 4)\<close>; and the same with \<open>(0, 5)\<close> flagged before
  \<open>(0, 4)\<close> is revealed.
\<close>

definition strip0 :: Board where
  "strip0 = \<lparr>rows = 1, cols = 7, mines_count = 1, mines = {},
     revealed = [[False, False, False, False, False, False, False]],
     flagged = [[False, False, False, False, False, False, False]],
     board = [[0, 0, 0, 0, 0, 0, 0]], placed = False, game_over = False, victory = False\<rparr>"

definition strip1 :: Board where
  "strip1 = \<lparr>rows = 1, cols = 7, mines_count = 1, mines = {(0, 2)},
     revealed = [[True, True, False, False, False, False, False]],
     flagged = [[False, False, False, False, False, False, False]],
     board = [[0, 1, - 1, 1, 0, 0, 0]], placed = True, game_over = False, victory = False\<rparr>"

definition strip1_done :: Board where
  "strip1_done = \<lparr>rows = 1, cols = 7, mines_count = 1, mines = {(0, 2)},
     revealed = [[True, True, False, True, True, True, True]],
     flagged = [[False, False, False, False, False, False, False]],
     board = [[0, 1, - 1, 1, 0, 0, 0]], placed = True, game_over = True, victory = True\<rparr>"

definition strip2 :: Board where
  "strip2 = \<lparr>rows = 1, cols = 7, mines_count = 1, mines = {(0, 2)},
     revealed = [[True, True, False, False, False, False, False]],
     flagged = [[False, False, False, False, False, True, False]],
     board = [[0, 1, - 1, 1, 0, 0, 0]], placed = True, game_over = False, victory = False\<rparr>"

definition strip2_after :: Board where
  "strip2_after = \<lparr>rows = 1, cols = 7, mines_count = 1, mines = {(0, 2)},
     revealed = [[True, True, False, True, True, False, False]],
     flagged = [[False, False, False, False, False, True, False]],
     board = [[0, 1, - 1, 1, 0, 0, 0]], placed = True, game_over = False, victory = False\<rparr>"

text \<open>
  The won and the lost game after \<^verbatim>\<open>end_game\<close> has revealed every cell.
\<close>

definition game_won_shown :: Board where
  "game_won_shown = \<lparr>rows = 1, cols = 4, mines_count = 1, mines = {(0, 3)},
     revealed = [[True, True, True, True]],
     flagged = [[False, False, False, False]],
     board = [[0, 0, 1, - 1]], placed = True, game_over = True, victory = True\<rparr>"

definition game_lost_shown :: Board where
  "game_lost_shown = \<lparr>rows = 1, cols = 5, mines_count = 2, mines = {(0, 2), (0, 4)},
     revealed = [[True, True, True, True, True]],
     flagged = [[False, False, False, False, False]],
     board = [[0, 1, - 1, 2, - 1]], placed = True, game_over = True, victory = False\<rparr>"


section \<open>Properties\<close>

lemma py_index_in: "0 \<le> i \<Longrightarrow> i < int n \<Longrightarrow> py_index n i = Some (nat i)"
  by (simp add: py_index_def)

lemma get2_in_view:
  assumes "view_shape v m n" "in_view m n p"
  shows "get2 v (fst p) (snd p) = Inr (sym v p)"
proof -
  from assms have r: "0 \<le> fst p" "fst p < int (length v)"
    by (auto simp: view_shape_def in_view_def)
  then have "v ! nat (fst p) \<in> set v" by simp
  with assms have c: "0 \<le> snd p" "snd p < int (length (v ! nat (fst p)))"
    by (auto simp: view_shape_def in_view_def)
  show ?thesis using r c
    by (simp add: get2_def py_get_def py_index_in sym_def)
qed

lemma check_window_eq:
  assumes "view_shape v m n"
  shows "check_window v m n ps f u =
     Inr (f + int (length (filter (\<lambda>q. in_view m n q \<and> sym v q = FLAGGED) ps)),
          u @ filter (\<lambda>q. in_view m n q \<and> sym v q = UNSEEN) ps)"
proof (induction ps arbitrary: f u)
  case Nil
  then show ?case by simp
next
  case (Cons p ps)
  obtain i j where p: "p = (i, j)" by (cases p)
  show ?case
  proof (cases "in_view m n p")
    case True
    then have g: "get2 v i j = Inr (sym v p)"
      using get2_in_view [OF assms True] p by simp
    from True p have c: "i \<ge> 0 \<and> j \<ge> 0 \<and> i < m \<and> j < n" by (simp add: in_view_def)
    show ?thesis using True c g Cons.IH by (simp add: p)
  next
    case False
    then show ?thesis using Cons.IH by (auto simp: p in_view_def)
  qed
qed

lemma is_count_facts:
  assumes "is_count s"
  shows "py_int s = Inr (count_of s)" "s \<noteq> UNSEEN" "s \<noteq> FLAGGED" "s \<noteq> MINE_SYM"
  using assms
  by (auto simp: is_count_def count_syms_def py_int_def is_digit_def count_of_def UNSEEN_def
      FLAGGED_def MINE_SYM_def)

lemma window_filter_centre:
  assumes "sym v p \<noteq> s"
  shows "filter (\<lambda>q. in_view m n q \<and> sym v q = s) (window (fst p) (snd p)) =
         filter (\<lambda>q. sym v q = s) (neighbours8 m n p)"
  unfolding neighbours8_def filter_filter
  by (rule filter_cong) (use assms in auto)

lemma check_count:
  assumes sh: "view_shape v m n" and inv: "in_view m n p" and cnt: "is_count (sym v p)"
  shows "check v (fst p) (snd p) m n =
           Inr (if deducing v m n p then Some (deduction v m n p) else None)"
proof -
  note f = is_count_facts [OF cnt]
  have u: "filter (\<lambda>q. in_view m n q \<and> sym v q = UNSEEN) (window (fst p) (snd p)) = unseen_nbrs v m n p"
    using window_filter_centre [OF f(2)] by (simp add: unseen_nbrs_def)
  have fl: "int (length (filter (\<lambda>q. in_view m n q \<and> sym v q = FLAGGED) (window (fst p) (snd p)))) =
      flagged_nbrs v m n p"
    using window_filter_centre [OF f(3)] by (simp add: flagged_nbrs_def)
  show ?thesis
    using f cnt
    by (simp add: check_def get2_in_view [OF sh inv] check_window_eq [OF sh] u fl deducing_def
        deduction_def Let_def)
qed

lemma check_unseen_flagged:
  assumes sh: "view_shape v m n" and inv: "in_view m n p"
    and s: "sym v p = UNSEEN \<or> sym v p = FLAGGED"
  shows "check v (fst p) (snd p) m n = Inr None"
  using s by (auto simp: check_def get2_in_view [OF sh inv])

lemma check_mine:
  assumes sh: "view_shape v m n" and inv: "in_view m n p" and s: "sym v p = MINE_SYM"
  shows "check v (fst p) (snd p) m n = Inl ValueError"
  using s
  by (simp add: check_def get2_in_view [OF sh inv] MINE_SYM_def UNSEEN_def FLAGGED_def
      py_int_def is_digit_def)

lemma scan_cells_set: "set (scan_cells m n) = {p. in_view m n p}"
  by (auto simp: scan_cells_def py_range_def in_view_def)

lemma scan_skip:
  assumes sh: "view_shape v m n"
  shows "\<forall>q \<in> set pre. in_view m n q \<and> check v (fst q) (snd q) m n = Inr None \<Longrightarrow>
     solution_scan v m n (pre @ rest) d = solution_scan v m n rest (last_unseen v pre d)"
proof (induction pre arbitrary: d)
  case Nil
  then show ?case by (simp add: last_unseen_def)
next
  case (Cons q pre)
  obtain i j where q: "q = (i, j)" by (cases q)
  from Cons.prems have iv: "in_view m n q" and ck: "check v i j m n = Inr None"
    by (simp_all add: q)
  have g: "get2 v i j = Inr (sym v q)" using get2_in_view [OF sh iv] by (simp add: q)
  have "solution_scan v m n ((q # pre) @ rest) d =
        solution_scan v m n (pre @ rest) (if sym v q = UNSEEN then q else d)"
    by (simp add: q ck g)
  also have "\<dots> = solution_scan v m n rest (last_unseen v pre (if sym v q = UNSEEN then q else d))"
    using Cons.prems by (intro Cons.IH) simp
  finally show ?case by (simp add: last_unseen_def)
qed

lemma scan_hit:
  assumes sh: "view_shape v m n" and iv: "in_view m n p"
    and ck: "check v (fst p) (snd p) m n = Inr (Some found)"
  shows "solution_scan v m n (p # rest) d = Inr found"
proof -
  obtain i j where p: "p = (i, j)" by (cases p)
  have g: "get2 v i j = Inr (sym v p)" using get2_in_view [OF sh iv] by (simp add: p)
  show ?thesis using ck by (simp add: p g)
qed

lemma sym_in_concat:
  assumes "view_shape v m n" "in_view m n p"
  shows "sym v p \<in> set (concat v)"
proof -
  from assms have r: "nat (fst p) < length v"
    by (auto simp: view_shape_def in_view_def)
  then have rs: "v ! nat (fst p) \<in> set v" by simp
  with assms have "nat (snd p) < length (v ! nat (fst p))"
    by (auto simp: view_shape_def in_view_def)
  then have "sym v p \<in> set (v ! nat (fst p))" by (simp add: sym_def)
  with rs show ?thesis by auto
qed

lemma check_quiet:
  assumes sh: "view_shape v m n" and iv: "in_view m n q"
    and s: "sym v q = UNSEEN \<or> sym v q = FLAGGED \<or> is_count (sym v q)"
    and nd: "\<not> deducing v m n q"
  shows "check v (fst q) (snd q) m n = Inr None"
proof (cases "is_count (sym v q)")
  case True
  then show ?thesis using check_count [OF sh iv True] nd by simp
next
  case False
  with s have "sym v q = UNSEEN \<or> sym v q = FLAGGED" by simp
  then show ?thesis by (rule check_unseen_flagged [OF sh iv])
qed

text \<open>
  C1. On a classified view, let \<open>p\<close> be the first cell in row-major order that is a
  count cell \<open>N\<close> with a non-empty list \<open>U\<close> of in-bounds unseen neighbours and with
  \<open>F = N\<close> or \<open>N - F = |U|\<close>, where \<open>F\<close> is the number of its in-bounds flagged
  neighbours. Then \<^verbatim>\<open>solution\<close> returns at \<open>p\<close>: \<open>(0, U)\<close> (reveal) if \<open>F = N\<close>, otherwise
  \<open>(1, U)\<close> (flag). The cells before \<open>p\<close>, which are unseen, flagged, or count cells with
  \<open>U\<close> empty or with neither rule, are passed over; the cells after \<open>p\<close> play no part.
\<close>

theorem solution_first_deduction:
  assumes cv: "classified_view v m n"
    and cells: "scan_cells m n = pre @ p # post"
    and hit: "deducing v m n p"
    and earlier: "\<forall>q \<in> set pre. \<not> deducing v m n q"
  shows "solution v m n = Inr (deduction v m n p)"
proof -
  from cv have sh: "view_shape v m n" by (simp add: classified_view_def)
  have inv: "\<And>q. q \<in> set (pre @ p # post) \<Longrightarrow> in_view m n q"
    using scan_cells_set [of m n] cells by auto
  have ivp: "in_view m n p" by (rule inv) simp
  from hit obtain u where u: "u \<in> set (unseen_nbrs v m n p)"
    by (cases "unseen_nbrs v m n p") (auto simp: deducing_def)
  then have "in_view m n u" "sym v u = UNSEEN"
    by (auto simp: unseen_nbrs_def neighbours8_def)
  then have "UNSEEN \<in> set (concat v)" using sym_in_concat [OF sh] by metis
  with cv have nomine: "MINE_SYM \<notin> set (concat v)"
    unfolding classified_view_def by blast
  from cv have alpha: "\<forall>s \<in> set (concat v). s = UNSEEN \<or> s = FLAGGED \<or> s = MINE_SYM \<or> is_count s"
    unfolding classified_view_def by blast
  have quiet: "\<forall>q \<in> set pre. in_view m n q \<and> check v (fst q) (snd q) m n = Inr None"
  proof
    fix q assume q: "q \<in> set pre"
    then have iv: "in_view m n q" by (intro inv) simp
    have "sym v q \<in> set (concat v)" by (rule sym_in_concat [OF sh iv])
    with alpha nomine have "sym v q = UNSEEN \<or> sym v q = FLAGGED \<or> is_count (sym v q)"
      by metis
    then have "check v (fst q) (snd q) m n = Inr None"
      using earlier q by (intro check_quiet [OF sh iv]) auto
    with iv show "in_view m n q \<and> check v (fst q) (snd q) m n = Inr None" by simp
  qed
  from hit have cnt: "is_count (sym v p)" by (simp add: deducing_def)
  have ck: "check v (fst p) (snd p) m n = Inr (Some (deduction v m n p))"
    using check_count [OF sh ivp cnt] hit by simp
  have "solution v m n = solution_scan v m n (pre @ p # post) (- 1, - 1)"
    by (simp add: solution_def cells)
  also have "\<dots> = solution_scan v m n (p # post) (last_unseen v pre (- 1, - 1))"
    by (rule scan_skip [OF sh quiet])
  also have "\<dots> = Inr (deduction v m n p)"
    by (rule scan_hit [OF sh ivp ck])
  finally show ?thesis .
qed

theorem solution_first_deduction_witness:
  "classified_view view1 2 3 \<and> scan_cells 2 3 = [(0, 0)] @ (0, 1) # [(0, 2), (1, 0), (1, 1), (1, 2)]
    \<and> deducing view1 2 3 (0, 1) \<and> \<not> deducing view1 2 3 (0, 0)
    \<and> solution view1 2 3 = Inr (0, [(0, 2), (1, 0)])"
proof -
  have c: "classified_view view1 2 3"
    by (simp add: classified_view_def view_shape_def view1_def UNSEEN_def FLAGGED_def
        MINE_SYM_def is_count_def count_syms_def)
  have s: "scan_cells 2 3 = [(0, 0)] @ (0, 1) # [(0, 2), (1, 0), (1, 1), (1, 2)]"
    by (simp add: scan_cells_def py_range_def upto.simps)
  have w: "window 0 1 = [(-1,0),(-1,1),(-1,2),(0,0),(0,1),(0,2),(1,0),(1,1),(1,2)]"
    by (simp add: window_def py_range_def upto.simps)
  have u: "unseen_nbrs view1 2 3 (0, 1) = [(0, 2), (1, 0)]"
    by (simp add: unseen_nbrs_def neighbours8_def w in_view_def sym_def view1_def UNSEEN_def)
  have f: "flagged_nbrs view1 2 3 (0, 1) = 1"
    by (simp add: flagged_nbrs_def neighbours8_def w in_view_def sym_def view1_def FLAGGED_def)
  have n: "sym view1 (0, 1) = ''1''" by (simp add: sym_def view1_def)
  have d: "deducing view1 2 3 (0, 1)"
    by (simp add: deducing_def u f n is_count_def count_syms_def count_of_def)
  have e: "\<forall>q \<in> set [(0, 0)]. \<not> deducing view1 2 3 q"
    by (simp add: deducing_def sym_def view1_def is_count_def count_syms_def)
  have r: "deduction view1 2 3 (0, 1) = (0, [(0, 2), (1, 0)])"
    by (simp add: deduction_def u f n count_of_def)
  from solution_first_deduction [OF c s d e] c s d e r show ?thesis by simp
qed

lemma last_unseen_none:
  "\<forall>q \<in> set cells. sym v q \<noteq> UNSEEN \<Longrightarrow> last_unseen v cells d = d"
  unfolding last_unseen_def by (induction cells arbitrary: d) simp_all

lemma last_unseen_append:
  "last_unseen v (xs @ ys) d = last_unseen v ys (last_unseen v xs d)"
  by (simp add: last_unseen_def)

lemma last_unseen_last:
  assumes "sym v p = UNSEEN" "\<forall>q \<in> set post. sym v q \<noteq> UNSEEN"
  shows "last_unseen v (pre @ p # post) d = p"
proof -
  have "last_unseen v (pre @ p # post) d = last_unseen v post (last_unseen v [p] (last_unseen v pre d))"
    using last_unseen_append [of v pre "[p] @ post" d] last_unseen_append [of v "[p]" post]
    by simp
  also have "last_unseen v [p] (last_unseen v pre d) = p"
    using assms(1) by (simp add: last_unseen_def)
  finally show ?thesis using last_unseen_none [OF assms(2)] by simp
qed

text \<open>
  A scan without deduction on a view without mine symbols: every check returns \<open>-1\<close>, and
  the code after the loops decides by the last unseen cell met.
\<close>

lemma solution_without_deduction:
  assumes sh: "view_shape v m n"
    and alpha: "\<forall>s \<in> set (concat v). s = UNSEEN \<or> s = FLAGGED \<or> is_count s"
    and quiet: "\<forall>q \<in> set (scan_cells m n). \<not> deducing v m n q"
  shows "solution v m n =
     (if last_unseen v (scan_cells m n) (- 1, - 1) = (- 1, - 1)
      then Inl (Exception ''SOLUTION FUNCTION FAILUER: There is no unseen squer left!'')
      else Inr (0, [last_unseen v (scan_cells m n) (- 1, - 1)]))"
proof -
  have q: "\<forall>q \<in> set (scan_cells m n). in_view m n q \<and> check v (fst q) (snd q) m n = Inr None"
  proof
    fix q assume q: "q \<in> set (scan_cells m n)"
    then have iv: "in_view m n q" by (simp add: scan_cells_set)
    have "sym v q \<in> set (concat v)" by (rule sym_in_concat [OF sh iv])
    with alpha have "sym v q = UNSEEN \<or> sym v q = FLAGGED \<or> is_count (sym v q)" by blast
    then have "check v (fst q) (snd q) m n = Inr None"
      using quiet q by (intro check_quiet [OF sh iv]) auto
    with iv show "in_view m n q \<and> check v (fst q) (snd q) m n = Inr None" by simp
  qed
  have "solution v m n = solution_scan v m n (scan_cells m n @ []) (- 1, - 1)"
    by (simp add: solution_def)
  also have "\<dots> = solution_scan v m n [] (last_unseen v (scan_cells m n) (- 1, - 1))"
    by (rule scan_skip [OF sh q])
  finally show ?thesis by simp
qed

lemma solution_fallback:
  assumes sh: "view_shape v m n"
    and alpha: "\<forall>s \<in> set (concat v). s = UNSEEN \<or> s = FLAGGED \<or> is_count s"
    and quiet: "\<forall>q \<in> set (scan_cells m n). \<not> deducing v m n q"
    and cells: "scan_cells m n = pre @ p # post"
    and p: "sym v p = UNSEEN" and post: "\<forall>q \<in> set post. sym v q \<noteq> UNSEEN"
  shows "solution v m n = Inr (0, [p])"
proof -
  have "p \<in> set (scan_cells m n)" by (simp add: cells)
  then have "in_view m n p" by (simp add: scan_cells_set)
  then have "p \<noteq> (- 1, - 1)" by (auto simp: in_view_def)
  moreover have "last_unseen v (scan_cells m n) (- 1, - 1) = p"
    unfolding cells by (rule last_unseen_last [OF p post])
  ultimately show ?thesis using solution_without_deduction [OF sh alpha quiet] by simp
qed

lemma solution_exhausted:
  assumes sh: "view_shape v m n"
    and alpha: "\<forall>s \<in> set (concat v). s = FLAGGED \<or> is_count s"
  shows "solution v m n =
           Inl (Exception ''SOLUTION FUNCTION FAILUER: There is no unseen squer left!'')"
proof -
  have nu: "\<forall>q \<in> set (scan_cells m n). sym v q \<noteq> UNSEEN"
  proof
    fix q assume "q \<in> set (scan_cells m n)"
    then have "in_view m n q" by (simp add: scan_cells_set)
    from sym_in_concat [OF sh this] alpha have "sym v q = FLAGGED \<or> is_count (sym v q)" by blast
    then show "sym v q \<noteq> UNSEEN" using is_count_facts(2) by (auto simp: FLAGGED_def UNSEEN_def)
  qed
  have quiet: "\<forall>q \<in> set (scan_cells m n). \<not> deducing v m n q"
  proof
    fix q assume "q \<in> set (scan_cells m n)"
    have "unseen_nbrs v m n q = []"
    proof (rule ccontr)
      assume "unseen_nbrs v m n q \<noteq> []"
      then obtain u where "u \<in> set (unseen_nbrs v m n q)" by (cases "unseen_nbrs v m n q") auto
      then have "in_view m n u" "sym v u = UNSEEN" by (auto simp: unseen_nbrs_def neighbours8_def)
      moreover from this(1) have "u \<in> set (scan_cells m n)" by (simp add: scan_cells_set)
      ultimately show False using nu by blast
    qed
    then show "\<not> deducing v m n q" by (simp add: deducing_def)
  qed
  from alpha have alpha': "\<forall>s \<in> set (concat v). s = UNSEEN \<or> s = FLAGGED \<or> is_count s" by blast
  from solution_without_deduction [OF sh alpha' quiet] last_unseen_none [OF nu]
  show ?thesis by simp
qed

lemma wrap_inside: "inside r c p \<Longrightarrow> wrap r c p = Some p"
  by (cases p) (auto simp: wrap_def inside_def py_index_def)

lemma wrap_Some_inside: "wrap r c p = Some q \<Longrightarrow> inside r c q"
  by (auto simp: wrap_def inside_def py_index_def split: option.splits if_splits)

lemma shape_row: "shape g r c \<Longrightarrow> k < nat r \<Longrightarrow> length (g ! k) = nat c"
  by (simp add: shape_def)

lemma get2_shape:
  assumes "shape g r c"
  shows "get2 g i j = (case wrap r c (i, j) of None \<Rightarrow> Inl IndexError | Some p \<Rightarrow> Inr (at g p))"
proof (cases "py_index (nat r) i")
  case None
  with assms show ?thesis by (simp add: get2_def py_get_def wrap_def shape_def)
next
  case (Some k)
  then have "k < nat r" by (rule py_index_less)
  with assms have "length (g ! k) = nat c" by (rule shape_row)
  with Some assms show ?thesis
    by (simp add: get2_def py_get_def wrap_def shape_def at_def split: option.splits)
qed

lemma set2_shape:
  assumes "shape g r c"
  shows "set2 g i j v = (case wrap r c (i, j) of None \<Rightarrow> Inl IndexError | Some p \<Rightarrow> Inr (upd g p v))"
proof (cases "py_index (nat r) i")
  case None
  with assms show ?thesis by (simp add: set2_def wrap_def shape_def)
next
  case (Some k)
  then have "k < nat r" by (rule py_index_less)
  with assms have "length (g ! k) = nat c" by (rule shape_row)
  with Some assms show ?thesis
    by (simp add: set2_def py_set_def wrap_def shape_def upd_def split: option.splits)
qed

lemma shape_upd:
  assumes "shape g r c"
  shows "shape (upd g p v) r c"
proof (cases "nat (fst p) < length g")
  case True
  then have "g ! nat (fst p) \<in> set g" by simp
  with assms have "length (g ! nat (fst p)) = nat c" by (simp add: shape_def)
  moreover have "\<And>row. row \<in> set (upd g p v) \<Longrightarrow>
      row = (g ! nat (fst p))[nat (snd p) := v] \<or> row \<in> set g"
    using set_update_subset_insert [of g "nat (fst p)" "(g ! nat (fst p))[nat (snd p) := v]"]
    by (auto simp: upd_def)
  ultimately show ?thesis using assms by (fastforce simp: shape_def upd_def)
next
  case False
  then have "g[nat (fst p) := (g ! nat (fst p))[nat (snd p) := v]] = g"
    by (simp add: list_update_beyond)
  with assms show ?thesis by (simp add: upd_def)
qed

lemma at_upd:
  assumes "shape g r c" "inside r c p" "inside r c q"
  shows "at (upd g p v) q = (if q = p then v else at g q)"
proof -
  from assms have k: "nat (fst p) < length g" by (simp add: shape_def inside_def)
  from assms have "nat (fst p) < nat r" by (simp add: inside_def)
  with assms(1) have "length (g ! nat (fst p)) = nat c" by (rule shape_row)
  with assms have l: "nat (snd p) < length (g ! nat (fst p))"
    by (simp add: inside_def)
  have eq: "q = p \<longleftrightarrow> nat (fst q) = nat (fst p) \<and> nat (snd q) = nat (snd p)"
    using assms(2,3) by (cases p; cases q) (auto simp: inside_def)
  show ?thesis using k l
    by (auto simp: at_def upd_def eq nth_list_update)
qed

lemma shape_grid: "shape (grid r c x) r c"
  by (simp add: shape_def grid_def)

lemma at_grid: "inside r c p \<Longrightarrow> at (grid r c x) p = x"
  by (simp add: at_def grid_def inside_def)

lemma cells_of_set: "set (cells_of b) = {p. inside (rows b) (cols b) p}"
  by (auto simp: cells_of_def py_range_def inside_def)

lemma cells_of_product: "cells_of b = List.product (py_range 0 (rows b)) (py_range 0 (cols b))"
  by (simp add: cells_of_def product_concat_map)

lemma cells_of_distinct: "distinct (cells_of b)"
  by (simp add: cells_of_product py_range_def distinct_product)

lemma neighbors_inside: "q \<in> set (neighbors b r c) \<Longrightarrow> inside (rows b) (cols b) q"
  by (auto simp: neighbors_def in_bounds_def inside_def Let_def split: if_splits)

lemma mark_mines_ok:
  "shape g r c \<Longrightarrow> \<forall>p \<in> set ps. inside r c p \<Longrightarrow>
     \<exists>g'. mark_mines g ps = Inr g' \<and> shape g' r c \<and>
       (\<forall>q. inside r c q \<longrightarrow> at g' q = (if q \<in> set ps then MINE else at g q))"
proof (induction ps arbitrary: g)
  case Nil
  then show ?case by simp
next
  case (Cons p ps)
  obtain i j where p: "p = (i, j)" by (cases p)
  from Cons.prems have ins: "inside r c p" by simp
  have s: "set2 g i j MINE = Inr (upd g p MINE)"
    using set2_shape [OF Cons.prems(1), of i j MINE] wrap_inside [OF ins] by (simp add: p)
  have sh: "shape (upd g p MINE) r c" by (rule shape_upd [OF Cons.prems(1)])
  from Cons.IH [OF sh] Cons.prems(2) obtain g' where
    g': "mark_mines (upd g p MINE) ps = Inr g'" "shape g' r c"
      "\<forall>q. inside r c q \<longrightarrow> at g' q = (if q \<in> set ps then MINE else at (upd g p MINE) q)"
    by auto
  have "\<forall>q. inside r c q \<longrightarrow> at g' q = (if q \<in> set (p # ps) then MINE else at g q)"
    using g'(3) at_upd [OF Cons.prems(1) ins] by auto
  with g'(1,2) s show ?case by (simp add: p)
qed

lemma fill_counts_ok:
  "shape g (rows b) (cols b) \<Longrightarrow> \<forall>p \<in> set ps. inside (rows b) (cols b) p \<Longrightarrow>
     \<exists>g'. fill_counts b g ps = Inr g' \<and> shape g' (rows b) (cols b) \<and>
       (\<forall>q. inside (rows b) (cols b) q \<longrightarrow>
          at g' q = (if q \<in> set ps \<and> at g q \<noteq> MINE then mines_around b q else at g q))"
proof (induction ps arbitrary: g)
  case Nil
  then show ?case by simp
next
  case (Cons p ps)
  obtain i j where p: "p = (i, j)" by (cases p)
  from Cons.prems have ins: "inside (rows b) (cols b) p" by simp
  have gt: "get2 g i j = Inr (at g p)"
    using get2_shape [OF Cons.prems(1), of i j] wrap_inside [OF ins] by (simp add: p)
  show ?case
  proof (cases "at g p = MINE")
    case True
    from Cons.IH [OF Cons.prems(1)] Cons.prems(2) obtain g' where
      g': "fill_counts b g ps = Inr g'" "shape g' (rows b) (cols b)"
        "\<forall>q. inside (rows b) (cols b) q \<longrightarrow>
           at g' q = (if q \<in> set ps \<and> at g q \<noteq> MINE then mines_around b q else at g q)"
      by auto
    have "\<forall>q. inside (rows b) (cols b) q \<longrightarrow>
        at g' q = (if q \<in> set (p # ps) \<and> at g q \<noteq> MINE then mines_around b q else at g q)"
      using g'(3) True by auto
    with g'(1,2) gt True show ?thesis by (simp add: p)
  next
    case False
    let ?g1 = "upd g p (mines_around b p)"
    have s: "set2 g i j (mines_around b p) = Inr ?g1"
      using set2_shape [OF Cons.prems(1), of i j] wrap_inside [OF ins] by (simp add: p)
    have sh: "shape ?g1 (rows b) (cols b)" by (rule shape_upd [OF Cons.prems(1)])
    from Cons.IH [OF sh] Cons.prems(2) obtain g' where
      g': "fill_counts b ?g1 ps = Inr g'" "shape g' (rows b) (cols b)"
        "\<forall>q. inside (rows b) (cols b) q \<longrightarrow>
           at g' q = (if q \<in> set ps \<and> at ?g1 q \<noteq> MINE then mines_around b q else at ?g1 q)"
      by auto
    have nm: "mines_around b p \<noteq> MINE" by (simp add: mines_around_def MINE_def)
    have "\<forall>q. inside (rows b) (cols b) q \<longrightarrow>
        at g' q = (if q \<in> set (p # ps) \<and> at g q \<noteq> MINE then mines_around b q else at g q)"
      using g'(3) False nm at_upd [OF Cons.prems(1) ins] by auto
    moreover have "fill_counts b g (p # ps) = Inr g'"
      using gt False s g'(1) by (simp add: p mines_around_def)
    ultimately show ?thesis using g'(2) by blast
  qed
qed

lemma available_set:
  "set (available b r c) = {p. inside (rows b) (cols b) p \<and> p \<notin> safe_zone b r c}"
  by (auto simp: available_def cells_of_set)

lemma place_mines_ok:
  assumes w: "wf b" and smp: "sample_of (available b r c) (mines_count b) picked"
  shows "\<exists>g. place_mines b r c picked = Inr (b\<lparr>mines := set picked, board := g, placed := True\<rparr>)
      \<and> shape g (rows b) (cols b)
      \<and> (\<forall>q. inside (rows b) (cols b) q \<longrightarrow>
            at g q = (if q \<in> set picked \<or> at (board b) q = MINE then MINE
                      else mines_around (b\<lparr>mines := set picked\<rparr>) q))"
proof -
  let ?b1 = "b\<lparr>mines := set picked\<rparr>"
  from smp have len: "int (length picked) = mines_count b" and dist: "distinct picked"
    and sub: "set picked \<subseteq> set (available b r c)"
    by (simp_all add: sample_of_def)
  from dist sub have "card (set picked) \<le> card (set (available b r c))"
    by (intro card_mono) auto
  then have "length picked \<le> length (available b r c)"
    using dist card_length [of "available b r c"] by (simp add: distinct_card)
  with len have feas: "\<not> (mines_count b < 0 \<or> int (length (available b r c)) < mines_count b)"
    by auto
  from sub have pin: "\<forall>p \<in> set picked. inside (rows b) (cols b) p"
    by (auto simp: available_set)
  from w have shb: "shape (board b) (rows b) (cols b)" by (simp add: wf_def)
  from mark_mines_ok [OF shb pin] obtain g1 where
    g1: "mark_mines (board b) picked = Inr g1" "shape g1 (rows b) (cols b)"
      "\<forall>q. inside (rows b) (cols b) q \<longrightarrow> at g1 q = (if q \<in> set picked then MINE else at (board b) q)"
    by auto
  have cin: "\<forall>p \<in> set (cells_of ?b1). inside (rows ?b1) (cols ?b1) p"
    by (simp add: cells_of_set)
  from g1(2) have sh1: "shape g1 (rows ?b1) (cols ?b1)" by simp
  from fill_counts_ok [OF sh1 cin] obtain g2 where
    g2: "fill_counts ?b1 g1 (cells_of ?b1) = Inr g2" "shape g2 (rows b) (cols b)"
      "\<forall>q. inside (rows b) (cols b) q \<longrightarrow>
         at g2 q = (if q \<in> set (cells_of ?b1) \<and> at g1 q \<noteq> MINE then mines_around ?b1 q else at g1 q)"
    by auto
  have cs: "set (cells_of ?b1) = {p. inside (rows b) (cols b) p}" by (simp add: cells_of_set)
  have val: "\<forall>q. inside (rows b) (cols b) q \<longrightarrow>
            at g2 q = (if q \<in> set picked \<or> at (board b) q = MINE then MINE
                      else mines_around ?b1 q)"
    using g2(3) g1(3) cs by auto
  have "place_mines b r c picked = Inr (b\<lparr>mines := set picked, board := g2, placed := True\<rparr>)"
    using feas g1(1) g2(1) by (simp add: place_mines_def Let_def)
  with g2(2) val show ?thesis by blast
qed

lemma place_mines_infeasible:
  "mines_count b < 0 \<or> int (length (available b r c)) < mines_count b \<Longrightarrow>
     place_mines b r c picked = Inl ValueError"
  by (simp add: place_mines_def)

lemma count_revealed_ok:
  "shape g r c \<Longrightarrow> \<forall>p \<in> set ps. inside r c p \<Longrightarrow>
     count_revealed g ps = Inr (int (length (filter (at g) ps)))"
proof (induction ps)
  case Nil
  then show ?case by simp
next
  case (Cons p ps)
  obtain i j where p: "p = (i, j)" by (cases p)
  from Cons.prems have ins: "inside r c p" by simp
  have gt: "get2 g i j = Inr (at g p)"
    using get2_shape [OF Cons.prems(1), of i j] wrap_inside [OF ins] by (simp add: p)
  from Cons show ?case by (simp add: p gt)
qed

lemma check_victory_ok:
  assumes "wf b"
  shows "check_victory b =
     Inr (if \<not> game_over b \<and> revealed_count b = target b
          then b\<lparr>game_over := True, victory := True\<rparr> else b)"
proof -
  from assms have "shape (revealed b) (rows b) (cols b)" by (simp add: wf_def)
  then have "count_revealed (revealed b) (cells_of b) = Inr (revealed_count b)"
    unfolding revealed_count_def by (rule count_revealed_ok) (simp add: cells_of_set)
  then show ?thesis by (simp add: check_victory_def target_def)
qed

lemma push_neighbors_ok:
  assumes "wf b"
  shows "\<forall>p \<in> set ns. inside (rows b) (cols b) p \<Longrightarrow>
     push_neighbors b ns stack =
       Inr (rev (filter (\<lambda>q. \<not> at (revealed b) q \<and> \<not> at (flagged b) q) ns) @ stack)"
proof (induction ns arbitrary: stack)
  case Nil
  then show ?case by simp
next
  case (Cons p ns)
  obtain i j where p: "p = (i, j)" by (cases p)
  from Cons.prems have ins: "inside (rows b) (cols b) p" by simp
  from assms have shr: "shape (revealed b) (rows b) (cols b)"
    and shf: "shape (flagged b) (rows b) (cols b)" by (simp_all add: wf_def)
  have gr: "get2 (revealed b) i j = Inr (at (revealed b) p)"
    using get2_shape [OF shr, of i j] wrap_inside [OF ins] by (simp add: p)
  have gf: "get2 (flagged b) i j = Inr (at (flagged b) p)"
    using get2_shape [OF shf, of i j] wrap_inside [OF ins] by (simp add: p)
  from Cons show ?case by (simp add: p gr gf)
qed

lemma cascade_bad:
  assumes "wf b" "wrap (rows b) (cols b) s = None"
  shows "cascade b (s # stack) = Inl IndexError"
proof -
  obtain i j where s: "s = (i, j)" by (cases s)
  from assms have "shape (revealed b) (rows b) (cols b)" by (simp add: wf_def)
  from get2_shape [OF this, of i j] assms(2) show ?thesis by (simp add: s)
qed

lemma cascade_step:
  assumes w: "wf b" and s: "wrap (rows b) (cols b) s = Some p"
  shows "cascade b (s # stack) =
     (if at (revealed b) p then cascade b stack
      else if at (board b) p = 0 then
        cascade (b\<lparr>revealed := upd (revealed b) p True\<rparr>)
          (rev (filter (\<lambda>q. \<not> at (upd (revealed b) p True) q \<and> \<not> at (flagged b) q)
                 (neighbors b (fst s) (snd s))) @ stack)
      else cascade (b\<lparr>revealed := upd (revealed b) p True\<rparr>) stack)"
proof -
  obtain i j where ij: "s = (i, j)" by (cases s)
  from w have shr: "shape (revealed b) (rows b) (cols b)"
    and shb: "shape (board b) (rows b) (cols b)" by (simp_all add: wf_def)
  have gr: "get2 (revealed b) i j = Inr (at (revealed b) p)"
    using get2_shape [OF shr, of i j] s by (simp add: ij)
  have gb: "get2 (board b) i j = Inr (at (board b) p)"
    using get2_shape [OF shb, of i j] s by (simp add: ij)
  have sr: "set2 (revealed b) i j True = Inr (upd (revealed b) p True)"
    using set2_shape [OF shr, of i j] s by (simp add: ij)
  let ?b1 = "b\<lparr>revealed := upd (revealed b) p True\<rparr>"
  have w1: "wf ?b1" using w shape_upd [OF shr] by (simp add: wf_def)
  have nin: "\<forall>q \<in> set (neighbors b i j). inside (rows ?b1) (cols ?b1) q"
    using neighbors_inside by auto
  have pn: "push_neighbors ?b1 (neighbors b i j) stack =
      Inr (rev (filter (\<lambda>q. \<not> at (upd (revealed b) p True) q \<and> \<not> at (flagged b) q)
                 (neighbors b i j)) @ stack)"
    using push_neighbors_ok [OF w1 nin] by simp
  show ?thesis by (simp add: ij gr gb sr pn)
qed

lemma wf_reveal_upd: "wf b \<Longrightarrow> wf (b\<lparr>revealed := upd (revealed b) p True\<rparr>)"
  by (simp add: wf_def shape_upd)

text \<open>Induction over the cascade on a well-shaped board whose stack holds valid subscripts.\<close>

lemma cascade_induct_wf [consumes 2, case_names empty seen spread stop]:
  assumes w: "wf b" and st: "\<forall>s \<in> set stack. wrap (rows b) (cols b) s \<noteq> None"
    and empty: "\<And>b. wf b \<Longrightarrow> P b []"
    and seen: "\<And>b s p stack. wf b \<Longrightarrow> wrap (rows b) (cols b) s = Some p \<Longrightarrow>
        at (revealed b) p \<Longrightarrow> P b stack \<Longrightarrow> P b (s # stack)"
    and spread: "\<And>b s p stack. wf b \<Longrightarrow> wrap (rows b) (cols b) s = Some p \<Longrightarrow>
        \<not> at (revealed b) p \<Longrightarrow> at (board b) p = 0 \<Longrightarrow>
        P (b\<lparr>revealed := upd (revealed b) p True\<rparr>)
          (rev (filter (\<lambda>q. \<not> at (upd (revealed b) p True) q \<and> \<not> at (flagged b) q)
                 (neighbors b (fst s) (snd s))) @ stack) \<Longrightarrow> P b (s # stack)"
    and stop: "\<And>b s p stack. wf b \<Longrightarrow> wrap (rows b) (cols b) s = Some p \<Longrightarrow>
        \<not> at (revealed b) p \<Longrightarrow> at (board b) p \<noteq> 0 \<Longrightarrow>
        P (b\<lparr>revealed := upd (revealed b) p True\<rparr>) stack \<Longrightarrow> P b (s # stack)"
  shows "P b stack"
  using w st
proof (induction b stack rule: cascade.induct)
  case (1 b)
  then show ?case by (simp add: empty)
next
  case (2 b cr cc stack)
  from "2.prems" obtain p where p: "wrap (rows b) (cols b) (cr, cc) = Some p" by auto
  from "2.prems" have w: "wf b" and rest: "\<forall>s \<in> set stack. wrap (rows b) (cols b) s \<noteq> None"
    by simp_all
  from w have shr: "shape (revealed b) (rows b) (cols b)"
    and shb: "shape (board b) (rows b) (cols b)" by (simp_all add: wf_def)
  have gr: "get2 (revealed b) cr cc = Inr (at (revealed b) p)"
    using get2_shape [OF shr, of cr cc] p by simp
  have gb: "get2 (board b) cr cc = Inr (at (board b) p)"
    using get2_shape [OF shb, of cr cc] p by simp
  have sr: "set2 (revealed b) cr cc True = Inr (upd (revealed b) p True)"
    using set2_shape [OF shr, of cr cc] p by simp
  let ?b1 = "b\<lparr>revealed := upd (revealed b) p True\<rparr>"
  have w1: "wf ?b1" by (rule wf_reveal_upd [OF w])
  have rest1: "\<forall>s \<in> set stack. wrap (rows ?b1) (cols ?b1) s \<noteq> None" using rest by simp
  show ?case
  proof (cases "at (revealed b) p")
    case True
    have "P b stack" using "2.IH"(1) [OF gr True w rest] .
    then show ?thesis using seen [OF w p True] by simp
  next
    case False
    show ?thesis
    proof (cases "at (board b) p = 0")
      case True
      let ?ns = "rev (filter (\<lambda>q. \<not> at (upd (revealed b) p True) q \<and> \<not> at (flagged b) q)
                 (neighbors b cr cc)) @ stack"
      have nin: "\<forall>q \<in> set (neighbors b cr cc). inside (rows ?b1) (cols ?b1) q"
        using neighbors_inside by auto
      have pn: "push_neighbors ?b1 (neighbors b cr cc) stack = Inr ?ns"
        using push_neighbors_ok [OF w1 nin] by simp
      have ok: "\<forall>s \<in> set ?ns. wrap (rows ?b1) (cols ?b1) s \<noteq> None"
        using rest neighbors_inside [of _ b cr cc] wrap_inside [of "rows b" "cols b"]
        by auto
      have "P ?b1 ?ns"
        using "2.IH"(2) [OF gr False sr gb True pn w1 ok] .
      then show ?thesis using spread [OF w p False True] by simp
    next
      case nz: False
      have "P ?b1 stack"
        using "2.IH"(3) [OF gr False sr gb nz w1 rest1] .
      then show ?thesis using stop [OF w p False nz] by simp
    qed
  qed
qed

lemma cascade_total:
  assumes "wf b" "\<forall>s \<in> set stack. wrap (rows b) (cols b) s \<noteq> None"
  shows "\<exists>rv. cascade b stack = Inr (b\<lparr>revealed := rv\<rparr>) \<and> shape rv (rows b) (cols b) \<and>
           (\<forall>q. inside (rows b) (cols b) q \<longrightarrow> at (revealed b) q \<longrightarrow> at rv q)"
  using assms
proof (induction rule: cascade_induct_wf)
  case (empty b)
  have "b = b\<lparr>revealed := revealed b\<rparr>" by simp
  moreover have "shape (revealed b) (rows b) (cols b)" using empty by (simp add: wf_def)
  ultimately show ?case by (metis cascade.simps(1))
next
  case (seen b s p stack)
  then show ?case by (simp add: cascade_step)
next
  case (spread b s p stack)
  then obtain rv where rv: "cascade (b\<lparr>revealed := upd (revealed b) p True\<rparr>)
          (rev (filter (\<lambda>q. \<not> at (upd (revealed b) p True) q \<and> \<not> at (flagged b) q)
                 (neighbors b (fst s) (snd s))) @ stack) = Inr (b\<lparr>revealed := rv\<rparr>)"
    "shape rv (rows b) (cols b)"
    "\<forall>q. inside (rows b) (cols b) q \<longrightarrow> at (upd (revealed b) p True) q \<longrightarrow> at rv q"
    by auto
  from spread have shr: "shape (revealed b) (rows b) (cols b)" by (simp add: wf_def)
  have pin: "inside (rows b) (cols b) p" using spread(2) by (rule wrap_Some_inside)
  have mono: "\<forall>q. inside (rows b) (cols b) q \<longrightarrow> at (revealed b) q \<longrightarrow> at rv q"
    using rv(3) at_upd [OF shr pin] by auto
  have "cascade b (s # stack) = Inr (b\<lparr>revealed := rv\<rparr>)"
    using rv(1) spread(1-4) by (simp add: cascade_step)
  with rv(2) mono show ?case by blast
next
  case (stop b s p stack)
  then obtain rv where rv: "cascade (b\<lparr>revealed := upd (revealed b) p True\<rparr>) stack
       = Inr (b\<lparr>revealed := rv\<rparr>)"
    "shape rv (rows b) (cols b)"
    "\<forall>q. inside (rows b) (cols b) q \<longrightarrow> at (upd (revealed b) p True) q \<longrightarrow> at rv q"
    by auto
  from stop have shr: "shape (revealed b) (rows b) (cols b)" by (simp add: wf_def)
  have pin: "inside (rows b) (cols b) p" using stop(2) by (rule wrap_Some_inside)
  have mono: "\<forall>q. inside (rows b) (cols b) q \<longrightarrow> at (revealed b) q \<longrightarrow> at rv q"
    using rv(3) at_upd [OF shr pin] by auto
  have "cascade b (s # stack) = Inr (b\<lparr>revealed := rv\<rparr>)"
    using rv(1) stop(1-4) by (simp add: cascade_step)
  with rv(2) mono show ?case by blast
qed

lemma stack_unflaggedD:
  "stack_unflagged b stack \<Longrightarrow> t \<in> set stack \<Longrightarrow> wrap (rows b) (cols b) t = Some q \<Longrightarrow>
     \<not> at (flagged b) q"
  unfolding stack_unflagged_def by blast

lemma new_unflagged_step:
  assumes shr: "shape old (rows b) (cols b)" and pin: "inside (rows b) (cols b) p"
    and nf: "\<not> at (flagged b) p" and n: "new_unflagged b (upd old p True) new"
  shows "new_unflagged b old new"
  unfolding new_unflagged_def
proof (intro allI impI)
  fix q assume q: "inside (rows b) (cols b) q" and r: "at new q"
  with n have "at (upd old p True) q \<or> \<not> at (flagged b) q"
    unfolding new_unflagged_def by blast
  then show "at old q \<or> \<not> at (flagged b) q"
    using at_upd [OF shr pin q, of True] nf by (cases "q = p") auto
qed

lemma cascade_new_unflagged:
  assumes "wf b" "\<forall>s \<in> set stack. wrap (rows b) (cols b) s \<noteq> None"
  shows "stack_unflagged b stack \<longrightarrow>
         (\<forall>b'. cascade b stack = Inr b' \<longrightarrow> new_unflagged b (revealed b) (revealed b'))"
  using assms
proof (induction rule: cascade_induct_wf)
  case (empty b)
  then show ?case by (simp add: new_unflagged_def)
next
  case (seen b s p stack)
  then show ?case by (simp add: cascade_step stack_unflagged_def)
next
  case (spread b s p stack)
  from spread(1) have shr: "shape (revealed b) (rows b) (cols b)" by (simp add: wf_def)
  have pin: "inside (rows b) (cols b) p" using spread(2) by (rule wrap_Some_inside)
  let ?b1 = "b\<lparr>revealed := upd (revealed b) p True\<rparr>"
  let ?ns = "rev (filter (\<lambda>q. \<not> at (upd (revealed b) p True) q \<and> \<not> at (flagged b) q)
               (neighbors b (fst s) (snd s))) @ stack"
  show ?case
  proof (intro impI allI)
    fix b'
    assume fl: "stack_unflagged b (s # stack)" and c: "cascade b (s # stack) = Inr b'"
    from c spread(1-4) have c1: "cascade ?b1 ?ns = Inr b'" by (simp add: cascade_step)
    have "stack_unflagged ?b1 ?ns"
      unfolding stack_unflagged_def
    proof (intro ballI allI impI)
      fix t q assume t: "t \<in> set ?ns" and wq: "wrap (rows ?b1) (cols ?b1) t = Some q"
      show "\<not> at (flagged ?b1) q"
      proof (cases "t \<in> set stack")
        case True
        from wq have "wrap (rows b) (cols b) t = Some q" by simp
        with fl True have "\<not> at (flagged b) q" by (intro stack_unflaggedD [of b "s # stack" t]) auto
        then show ?thesis by simp
      next
        case False
        with t have tn: "t \<in> set (neighbors b (fst s) (snd s))" and tf: "\<not> at (flagged b) t"
          by auto
        from neighbors_inside [OF tn] have "wrap (rows b) (cols b) t = Some t"
          by (rule wrap_inside)
        with wq tf show ?thesis by simp
      qed
    qed
    with spread.IH c1 have "new_unflagged ?b1 (revealed ?b1) (revealed b')" by blast
    then have n: "new_unflagged b (upd (revealed b) p True) (revealed b')"
      by (simp add: new_unflagged_def)
    from fl spread(2) have "\<not> at (flagged b) p" by (intro stack_unflaggedD [of b "s # stack" s]) auto
    from new_unflagged_step [OF shr pin this n]
    show "new_unflagged b (revealed b) (revealed b')" .
  qed
next
  case (stop b s p stack)
  from stop(1) have shr: "shape (revealed b) (rows b) (cols b)" by (simp add: wf_def)
  have pin: "inside (rows b) (cols b) p" using stop(2) by (rule wrap_Some_inside)
  let ?b1 = "b\<lparr>revealed := upd (revealed b) p True\<rparr>"
  show ?case
  proof (intro impI allI)
    fix b'
    assume fl: "stack_unflagged b (s # stack)" and c: "cascade b (s # stack) = Inr b'"
    from c stop(1-4) have c1: "cascade ?b1 stack = Inr b'" by (simp add: cascade_step)
    from fl have "stack_unflagged ?b1 stack" by (simp add: stack_unflagged_def)
    with stop.IH c1 have "new_unflagged ?b1 (revealed ?b1) (revealed b')" by blast
    then have n: "new_unflagged b (upd (revealed b) p True) (revealed b')"
      by (simp add: new_unflagged_def)
    from fl stop(2) have "\<not> at (flagged b) p" by (intro stack_unflaggedD [of b "s # stack" s]) auto
    from new_unflagged_step [OF shr pin this n]
    show "new_unflagged b (revealed b) (revealed b')" .
  qed
qed

lemma placing_same:
  assumes "placing b r c picked b1"
  shows "rows b1 = rows b" "cols b1 = cols b" "mines_count b1 = mines_count b"
    "revealed b1 = revealed b" "flagged b1 = flagged b" "game_over b1 = game_over b"
    "victory b1 = victory b" "placed b1"
  using assms by (auto simp: placing_def split: if_splits)

lemma placing_wf: "wf b \<Longrightarrow> placing b r c picked b1 \<Longrightarrow> wf b1"
  by (auto simp: placing_def wf_def split: if_splits)

lemma reveal_guard_wf:
  assumes "wf b"
  shows "reveal_guard b r c =
     (if game_over b then Inr True
      else (case wrap (rows b) (cols b) (r, c) of
              None \<Rightarrow> Inl IndexError
            | Some p \<Rightarrow> Inr (at (flagged b) p \<or> at (revealed b) p)))"
proof -
  from assms have shr: "shape (revealed b) (rows b) (cols b)"
    and shf: "shape (flagged b) (rows b) (cols b)" by (simp_all add: wf_def)
  show ?thesis
    by (simp add: reveal_guard_def get2_shape [OF shr] get2_shape [OF shf] split: option.splits)
qed

lemma reveal_cases [consumes 3, case_names noop mine opened]:
  assumes w: "wf b" and smp: "placed b \<or> sample_of (available b r c) (mines_count b) picked"
    and rv: "reveal b r c picked = Inr b'"
    and noop: "b' = b \<Longrightarrow> thesis"
    and mine: "\<And>p b1. wrap (rows b) (cols b) (r, c) = Some p \<Longrightarrow> \<not> game_over b \<Longrightarrow>
        \<not> at (flagged b) p \<Longrightarrow> \<not> at (revealed b) p \<Longrightarrow> placing b r c picked b1 \<Longrightarrow>
        (r, c) \<in> mines b1 \<Longrightarrow>
        b' = b1\<lparr>revealed := upd (revealed b) p True, game_over := True, victory := False\<rparr> \<Longrightarrow>
        thesis"
    and opened: "\<And>p b1 g. wrap (rows b) (cols b) (r, c) = Some p \<Longrightarrow> \<not> game_over b \<Longrightarrow>
        \<not> at (flagged b) p \<Longrightarrow> \<not> at (revealed b) p \<Longrightarrow> placing b r c picked b1 \<Longrightarrow>
        (r, c) \<notin> mines b1 \<Longrightarrow> cascade b1 [(r, c)] = Inr (b1\<lparr>revealed := g\<rparr>) \<Longrightarrow>
        shape g (rows b) (cols b) \<Longrightarrow>
        check_victory (b1\<lparr>revealed := g\<rparr>) = Inr b' \<Longrightarrow> thesis"
  shows thesis
proof (cases "game_over b")
  case True
  with rv have "b' = b" by (simp add: reveal_def reveal_guard_def)
  then show ?thesis by (rule noop)
next
  case go: False
  show ?thesis
  proof (cases "wrap (rows b) (cols b) (r, c)")
    case None
    with rv go show ?thesis by (simp add: reveal_def reveal_guard_wf [OF w])
  next
    case (Some p)
    show ?thesis
    proof (cases "at (flagged b) p \<or> at (revealed b) p")
      case True
      with rv go Some have "b' = b" by (simp add: reveal_def reveal_guard_wf [OF w])
      then show ?thesis by (rule noop)
    next
      case False
      then have nf: "\<not> at (flagged b) p" and nr: "\<not> at (revealed b) p" by simp_all
      from rv go Some False obtain b1 where
        pm: "(if \<not> placed b then place_mines b r c picked else Inr b) = Inr b1"
        and rest: "(if (r, c) \<in> mines b1 then
                   (case set2 (revealed b1) r c True of
                      Inl e \<Rightarrow> Inl e
                    | Inr rv \<Rightarrow> Inr (b1\<lparr>revealed := rv, game_over := True, victory := False\<rparr>))
                 else
                   (case cascade b1 [(r, c)] of
                      Inl e \<Rightarrow> Inl e
                    | Inr b2 \<Rightarrow> check_victory b2)) = Inr b'"
        by (auto simp: reveal_def reveal_guard_wf [OF w] split: sum.splits)
      have pl: "placing b r c picked b1"
      proof (cases "placed b")
        case True
        with pm show ?thesis by (simp add: placing_def)
      next
        case False
        with smp have "sample_of (available b r c) (mines_count b) picked" by simp
        from place_mines_ok [OF w this] pm False this show ?thesis
          by (auto simp: placing_def)
      qed
      note same = placing_same [OF pl]
      have w1: "wf b1" by (rule placing_wf [OF w pl])
      then have shr1: "shape (revealed b1) (rows b) (cols b)" by (simp add: wf_def same)
      show ?thesis
      proof (cases "(r, c) \<in> mines b1")
        case True
        have "set2 (revealed b1) r c True = Inr (upd (revealed b) p True)"
          using set2_shape [OF shr1, of r c True] Some by (simp add: same)
        with rest True
        have "b' = b1\<lparr>revealed := upd (revealed b) p True, game_over := True, victory := False\<rparr>"
          by simp
        then show ?thesis using mine [OF Some go nf nr pl True] by simp
      next
        case nm: False
        have "\<forall>s \<in> set [(r, c)]. wrap (rows b1) (cols b1) s \<noteq> None"
          using Some by (simp add: same)
        from cascade_total [OF w1 this] obtain g where
          g: "cascade b1 [(r, c)] = Inr (b1\<lparr>revealed := g\<rparr>)" "shape g (rows b) (cols b)"
          by (auto simp: same)
        with rest nm have "check_victory (b1\<lparr>revealed := g\<rparr>) = Inr b'" by simp
        then show ?thesis using opened [OF Some go nf nr pl nm g] by simp
      qed
    qed
  qed
qed

lemma toggle_flag_wf:
  assumes "wf b"
  shows "toggle_flag b r c =
     (if game_over b then Inr b
      else (case wrap (rows b) (cols b) (r, c) of
              None \<Rightarrow> Inl IndexError
            | Some p \<Rightarrow>
                if at (revealed b) p then Inr b
                else check_victory (b\<lparr>flagged := upd (flagged b) p (\<not> at (flagged b) p)\<rparr>)))"
proof -
  from assms have shr: "shape (revealed b) (rows b) (cols b)"
    and shf: "shape (flagged b) (rows b) (cols b)" by (simp_all add: wf_def)
  show ?thesis
    by (simp add: toggle_flag_def get2_shape [OF shr] get2_shape [OF shf] set2_shape [OF shf]
        split: option.splits)
qed

lemma wf_fresh: "Board_init r c k = Inr b \<Longrightarrow> wf b"
  by (auto simp: Board_init_def reset_def wf_def shape_grid)

lemma check_victory_wf: "wf b \<Longrightarrow> check_victory b = Inr b' \<Longrightarrow> wf b'"
  by (auto simp: check_victory_ok wf_def split: if_splits)

lemma wf_toggle: "wf b \<Longrightarrow> toggle_flag b r c = Inr b' \<Longrightarrow> wf b'"
proof -
  assume w: "wf b" and t: "toggle_flag b r c = Inr b'"
  have "\<And>p. wf (b\<lparr>flagged := upd (flagged b) p (\<not> at (flagged b) p)\<rparr>)"
    using w by (simp add: wf_def shape_upd)
  with t w show "wf b'"
    by (auto simp: toggle_flag_wf [OF w] split: if_splits option.splits
        dest: check_victory_wf)
qed

lemma wf_reveal:
  assumes "wf b" "placed b \<or> sample_of (available b r c) (mines_count b) picked"
    "reveal b r c picked = Inr b'"
  shows "wf b'"
  using assms
proof (cases rule: reveal_cases)
  case noop
  with assms show ?thesis by simp
next
  case (mine p b1)
  from placing_wf [OF assms(1) mine(5)] have "wf b1" .
  then show ?thesis using mine(7) placing_same [OF mine(5)] shape_upd [of "revealed b"]
    by (simp add: wf_def)
next
  case (opened p b1 g)
  from placing_wf [OF assms(1) opened(5)] have "wf b1" .
  with opened(8) have "wf (b1\<lparr>revealed := g\<rparr>)"
    using placing_same [OF opened(5)] by (simp add: wf_def)
  then show ?thesis using opened(9) by (rule check_victory_wf)
qed

lemma reachable_wf: "reachable b \<Longrightarrow> wf b"
  by (induction rule: reachable.induct) (auto intro: wf_fresh wf_reveal wf_toggle)

lemma check_victory_same:
  assumes "check_victory b = Inr b'"
  shows "rows b' = rows b" "cols b' = cols b" "mines_count b' = mines_count b"
    "mines b' = mines b" "board b' = board b" "placed b' = placed b"
    "revealed b' = revealed b" "flagged b' = flagged b"
  using assms by (auto simp: check_victory_def split: if_splits sum.splits)

lemma exclusive_fresh: "Board_init r c k = Inr b \<Longrightarrow> exclusive b"
  by (auto simp: Board_init_def reset_def exclusive_def at_grid)

lemma exclusive_toggle:
  assumes w: "wf b" and e: "exclusive b" and t: "toggle_flag b r c = Inr b'"
  shows "exclusive b'"
proof (cases "b' = b")
  case True
  with e show ?thesis by simp
next
  case False
  with t obtain p where p: "wrap (rows b) (cols b) (r, c) = Some p"
    and nr: "\<not> at (revealed b) p"
    and cv: "check_victory (b\<lparr>flagged := upd (flagged b) p (\<not> at (flagged b) p)\<rparr>) = Inr b'"
    by (auto simp: toggle_flag_wf [OF w] split: if_splits option.splits)
  from w have shf: "shape (flagged b) (rows b) (cols b)" by (simp add: wf_def)
  have pin: "inside (rows b) (cols b) p" using p by (rule wrap_Some_inside)
  note same = check_victory_same [OF cv]
  show ?thesis
    unfolding exclusive_def
  proof (intro allI impI)
    fix q assume "inside (rows b') (cols b') q"
    then have q: "inside (rows b) (cols b) q" by (simp add: same)
    from e q have "\<not> (at (flagged b) q \<and> at (revealed b) q)" unfolding exclusive_def by blast
    then show "\<not> (at (flagged b') q \<and> at (revealed b') q)"
      using at_upd [OF shf pin q] nr by (cases "q = p") (auto simp: same)
  qed
qed

lemma exclusive_reveal:
  assumes w: "wf b" and e: "exclusive b"
    and smp: "placed b \<or> sample_of (available b r c) (mines_count b) picked"
    and rv: "reveal b r c picked = Inr b'"
  shows "exclusive b'"
  using w smp rv
proof (cases rule: reveal_cases)
  case noop
  with e show ?thesis by simp
next
  case (mine p b1)
  from w have shr: "shape (revealed b) (rows b) (cols b)" by (simp add: wf_def)
  have pin: "inside (rows b) (cols b) p" using mine(1) by (rule wrap_Some_inside)
  note same = placing_same [OF mine(5)]
  show ?thesis
    unfolding exclusive_def
  proof (intro allI impI)
    fix q assume "inside (rows b') (cols b') q"
    then have q: "inside (rows b) (cols b) q" by (simp add: mine(7) same)
    from e q have "\<not> (at (flagged b) q \<and> at (revealed b) q)" unfolding exclusive_def by blast
    then show "\<not> (at (flagged b') q \<and> at (revealed b') q)"
      using at_upd [OF shr pin q] mine(3) by (cases "q = p") (auto simp: mine(7) same)
  qed
next
  case (opened p b1 g)
  note same = placing_same [OF opened(5)]
  note cvs = check_victory_same [OF opened(9)]
  have w1: "wf b1" by (rule placing_wf [OF w opened(5)])
  have st: "\<forall>s \<in> set [(r, c)]. wrap (rows b1) (cols b1) s \<noteq> None"
    using opened(1) by (simp add: same)
  have su: "stack_unflagged b1 [(r, c)]"
    using opened(1,3) by (simp add: stack_unflagged_def same)
  from cascade_new_unflagged [OF w1 st] su opened(7)
  have n: "new_unflagged b1 (revealed b1) g" by simp
  show ?thesis
    unfolding exclusive_def
  proof (intro allI impI)
    fix q assume "inside (rows b') (cols b') q"
    then have q: "inside (rows b) (cols b) q" by (simp add: cvs same)
    from e q have "\<not> (at (flagged b) q \<and> at (revealed b) q)" unfolding exclusive_def by blast
    moreover from n have "new_unflagged b (revealed b) g"
      by (simp add: new_unflagged_def same)
    with q have "at g q \<longrightarrow> at (revealed b) q \<or> \<not> at (flagged b) q"
      unfolding new_unflagged_def by blast
    ultimately show "\<not> (at (flagged b') q \<and> at (revealed b') q)"
      by (auto simp: cvs same)
  qed
qed

lemma reachable_exclusive: "reachable b \<Longrightarrow> exclusive b"
proof (induction rule: reachable.induct)
  case (fresh r c k b)
  then show ?case by (rule exclusive_fresh)
next
  case (revealed b r c picked b')
  then show ?case using exclusive_reveal [OF reachable_wf] by blast
next
  case (toggled b r c b')
  then show ?case using exclusive_toggle [OF reachable_wf] by blast
qed

text \<open>
  C9. On every board reachable from a freshly constructed one by reveal and toggle\_flag
  calls, with any coordinates, no cell of the grid is both flagged and revealed.
\<close>

theorem never_flagged_and_revealed:
  "reachable b \<Longrightarrow> inside (rows b) (cols b) p \<Longrightarrow> \<not> (at (flagged b) p \<and> at (revealed b) p)"
  using reachable_exclusive [of b] unfolding exclusive_def by blast

lemma init_game0: "Board_init 1 5 2 = Inr game0"
  by (simp add: Board_init_def reset_def grid_def game0_def numeral_eq_Suc)

lemma cells_game0: "cells_of game0 = [(0, 0), (0, 1), (0, 2), (0, 3), (0, 4)]"
  by (simp add: cells_of_def py_range_def game0_def upto.simps)

lemma available_game0: "available game0 0 0 = [(0, 2), (0, 3), (0, 4)]"
  by code_simp

lemma sample_game0: "sample_of (available game0 0 0) (mines_count game0) [(0, 2), (0, 4)]"
  by (simp add: sample_of_def available_game0) (simp add: game0_def)

lemma reveal_game0: "reveal game0 0 0 [(0, 2), (0, 4)] = Inr game1"
  by code_simp

lemma reveal_game1: "reveal game1 0 2 [] = Inr game_lost"
  by code_simp

lemma reachable_game1: "reachable game1"
  using reachable.revealed [OF reachable.fresh [OF init_game0] _ reveal_game0] sample_game0
  by blast

theorem never_flagged_and_revealed_witness:
  "reachable game1 \<and> inside (rows game1) (cols game1) (0, 1) \<and>
     \<not> (at (flagged game1) (0, 1) \<and> at (revealed game1) (0, 1))"
  using never_flagged_and_revealed [of game1 "(0, 1)"] reachable_game1
  by (simp add: inside_def game1_def)

lemma neighbors_inner:
  "concat (map (\<lambda>dc. if dr = 0 \<and> dc = 0 then []
                       else (let nr = r + dr; nc = c + dc in
                             if in_bounds b nr nc then [(nr, nc)] else [])) ds) =
   filter (\<lambda>q. in_bounds b (fst q) (snd q))
     (concat (map (\<lambda>dc. if dr = 0 \<and> dc = 0 then [] else [(r + dr, c + dc)]) ds))"
  by (induction ds) (simp_all add: Let_def)

lemma neighbors_outer:
  "concat (map (\<lambda>dr. concat (map (\<lambda>dc. if dr = 0 \<and> dc = 0 then []
                       else (let nr = r + dr; nc = c + dc in
                             if in_bounds b nr nc then [(nr, nc)] else [])) ds2)) ds1) =
   filter (\<lambda>q. in_bounds b (fst q) (snd q))
     (concat (map (\<lambda>dr. concat (map (\<lambda>dc. if dr = 0 \<and> dc = 0 then []
                                             else [(r + dr, c + dc)]) ds2)) ds1))"
  by (induction ds1) (simp_all add: neighbors_inner)

lemma neighbors_filter:
  "neighbors b r c = filter (\<lambda>q. in_bounds b (fst q) (snd q)) (offsets r c)"
  unfolding neighbors_def neighbors_outer by (simp add: offsets_def)

lemma offsets_set: "set (offsets r c) = {q. adjacent (r, c) q}"
proof (intro set_eqI iffI)
  fix q assume "q \<in> set (offsets r c)"
  then show "q \<in> {q. adjacent (r, c) q}" by (auto simp: offsets_def adjacent_def)
next
  fix q assume "q \<in> {q. adjacent (r, c) q}"
  then have a: "\<bar>r - fst q\<bar> \<le> 1" "\<bar>c - snd q\<bar> \<le> 1" "\<not> (fst q = r \<and> snd q = c)"
    by (auto simp: adjacent_def)
  then have "fst q = r - 1 \<or> fst q = r \<or> fst q = r + 1" "snd q = c - 1 \<or> snd q = c \<or> snd q = c + 1"
    by arith+
  with a(3) show "q \<in> set (offsets r c)"
    by (cases q) (auto simp: offsets_def)
qed

lemma neighbors_set:
  "set (neighbors b r c) = {q. inside (rows b) (cols b) q \<and> adjacent (r, c) q}"
  by (auto simp: neighbors_filter offsets_set in_bounds_def inside_def)

lemma neighbors_distinct: "distinct (neighbors b r c)"
  unfolding neighbors_filter by (rule distinct_filter) (simp add: offsets_def)

lemma mines_around_card:
  "mines_around b p = int (card {q. inside (rows b) (cols b) q \<and> adjacent p q \<and> q \<in> mines b})"
proof -
  have "{q. inside (rows b) (cols b) q \<and> adjacent p q \<and> q \<in> mines b} =
        {q \<in> set (neighbors b (fst p) (snd p)). q \<in> mines b}"
    using neighbors_set [of b "fst p" "snd p"] by auto
  then show ?thesis
    by (simp add: mines_around_def distinct_length_filter neighbors_distinct Int_def conj_commute)
qed

lemma mines_around_cong:
  "rows b' = rows b \<Longrightarrow> cols b' = cols b \<Longrightarrow> mines b' = mines b \<Longrightarrow>
     mines_around b' p = mines_around b p"
  by (simp add: mines_around_card)

lemma layout_ok_cong:
  assumes "rows b' = rows b" "cols b' = cols b" "mines_count b' = mines_count b"
    "mines b' = mines b" "board b' = board b" "placed b' = placed b"
  shows "layout_ok b' = layout_ok b"
  using assms mines_around_cong [OF assms(1,2,4)] by (simp add: layout_ok_def)

lemma layout_ok_fresh: "Board_init r c k = Inr b \<Longrightarrow> layout_ok b"
  by (auto simp: Board_init_def reset_def layout_ok_def at_grid)

lemma layout_ok_placing:
  assumes l: "layout_ok b" and p: "placing b r c picked b1"
  shows "layout_ok b1"
proof (cases "placed b")
  case True
  with l p show ?thesis by (simp add: placing_def)
next
  case False
  with p obtain g where b1: "b1 = b\<lparr>mines := set picked, board := g, placed := True\<rparr>"
    and smp: "sample_of (available b r c) (mines_count b) picked"
    and g: "\<forall>q. inside (rows b) (cols b) q \<longrightarrow>
                   at g q = (if q \<in> set picked \<or> at (board b) q = MINE then MINE
                             else mines_around (b\<lparr>mines := set picked\<rparr>) q)"
    by (auto simp: placing_def)
  from l False have z: "\<forall>q. inside (rows b) (cols b) q \<longrightarrow> at (board b) q = 0"
    by (simp add: layout_ok_def)
  from smp have sub: "set picked \<subseteq> {p. inside (rows b) (cols b) p}"
    and card: "int (card (set picked)) = mines_count b"
    by (auto simp: sample_of_def available_set distinct_card)
  have ma: "\<And>q. mines_around (b\<lparr>mines := set picked\<rparr>) q = mines_around b1 q"
    by (rule mines_around_cong [symmetric]) (simp_all add: b1)
  have "\<forall>q. inside (rows b) (cols b) q \<longrightarrow>
          at g q = (if q \<in> set picked then MINE else mines_around b1 q)"
    using g z by (auto simp: MINE_def ma)
  with sub card show ?thesis by (simp add: layout_ok_def b1)
qed

lemma layout_ok_reveal:
  assumes w: "wf b" and l: "layout_ok b"
    and smp: "placed b \<or> sample_of (available b r c) (mines_count b) picked"
    and rv: "reveal b r c picked = Inr b'"
  shows "layout_ok b'"
  using w smp rv
proof (cases rule: reveal_cases)
  case noop
  with l show ?thesis by simp
next
  case (mine p b1)
  have "layout_ok b' = layout_ok b1" by (rule layout_ok_cong) (simp_all add: mine(7))
  with layout_ok_placing [OF l mine(5)] show ?thesis by simp
next
  case (opened p b1 g)
  note cvs = check_victory_same [OF opened(9)]
  have "layout_ok b' = layout_ok b1" by (rule layout_ok_cong) (simp_all add: cvs)
  with layout_ok_placing [OF l opened(5)] show ?thesis by simp
qed

lemma layout_ok_toggle:
  assumes w: "wf b" and l: "layout_ok b" and t: "toggle_flag b r c = Inr b'"
  shows "layout_ok b'"
proof (cases "b' = b")
  case True
  with l show ?thesis by simp
next
  case False
  with t obtain p where
    cv: "check_victory (b\<lparr>flagged := upd (flagged b) p (\<not> at (flagged b) p)\<rparr>) = Inr b'"
    by (auto simp: toggle_flag_wf [OF w] split: if_splits option.splits)
  note cvs = check_victory_same [OF cv]
  have "layout_ok b' = layout_ok b" by (rule layout_ok_cong) (simp_all add: cvs)
  with l show ?thesis by simp
qed

lemma reachable_layout_ok: "reachable b \<Longrightarrow> layout_ok b"
proof (induction rule: reachable.induct)
  case (fresh r c k b)
  then show ?case by (rule layout_ok_fresh)
next
  case (revealed b r c picked b')
  then show ?case using layout_ok_reveal [OF reachable_wf] by blast
next
  case (toggled b r c b')
  then show ?case using layout_ok_toggle [OF reachable_wf] by blast
qed

lemma layout_ok_value:
  "layout_ok b \<Longrightarrow> placed b \<Longrightarrow> inside (rows b) (cols b) q \<Longrightarrow>
     at (board b) q = (if q \<in> mines b then MINE else mines_around b q)"
  unfolding layout_ok_def by blast

lemma layout_ok_mines: "layout_ok b \<Longrightarrow> q \<in> mines b \<Longrightarrow> inside (rows b) (cols b) q"
  unfolding layout_ok_def by blast

text \<open>
  C6. On every board reachable by reveal and toggle\_flag calls, once mines are placed the
  stored value of every in-bounds non-mine cell is the number of its in-bounds
  8-neighbours that are mines; reachability covers every later state of the board.
\<close>

theorem counts_are_mine_neighbours:
  "reachable b \<Longrightarrow> placed b \<Longrightarrow> inside (rows b) (cols b) p \<Longrightarrow> p \<notin> mines b \<Longrightarrow>
     at (board b) p = int (card {q. inside (rows b) (cols b) q \<and> adjacent p q \<and> q \<in> mines b})"
  using layout_ok_value [OF reachable_layout_ok, of b p] mines_around_card [of b p]
  by simp

lemma neighbours_game1:
  "{q. inside (rows game1) (cols game1) q \<and> adjacent (0, 3) q \<and> q \<in> mines game1} = {(0, 2), (0, 4)}"
  by (auto simp: game1_def inside_def adjacent_def)

theorem counts_are_mine_neighbours_witness:
  "reachable game1 \<and> placed game1 \<and> inside (rows game1) (cols game1) (0, 3) \<and>
     (0, 3) \<notin> mines game1 \<and> at (board game1) (0, 3) = 2"
  using counts_are_mine_neighbours [of game1 "(0, 3)"] reachable_game1 neighbours_game1
  by (simp add: inside_def game1_def at_def)

lemma revealed_count_cong:
  "rows b' = rows b \<Longrightarrow> cols b' = cols b \<Longrightarrow> revealed b' = revealed b \<Longrightarrow>
     revealed_count b' = revealed_count b"
  by (simp add: revealed_count_def cells_of_def)

lemma win_ok_fresh: "Board_init r c k = Inr b \<Longrightarrow> win_ok b"
  by (auto simp: Board_init_def reset_def win_ok_def)

lemma win_ok_check_victory:
  assumes w: "wf b" and go: "\<not> game_over b" and v: "\<not> victory b"
    and cv: "check_victory b = Inr b'"
  shows "win_ok b'"
proof -
  note same = check_victory_same [OF cv]
  have rc: "revealed_count b' = revealed_count b"
    by (rule revealed_count_cong) (simp_all add: same)
  have tg: "target b' = target b" by (simp add: target_def same)
  from cv go have b': "b' = (if revealed_count b = target b
      then b\<lparr>game_over := True, victory := True\<rparr> else b)"
    by (simp add: check_victory_ok [OF w])
  show ?thesis
  proof (cases "revealed_count b = target b")
    case True
    with b' have "game_over b'" "victory b'" by simp_all
    with True show ?thesis by (simp add: win_ok_def rc tg)
  next
    case False
    with b' have "b' = b" by simp
    with False go v show ?thesis by (simp add: win_ok_def)
  qed
qed

lemma win_ok_toggle:
  assumes w: "wf b" and k: "win_ok b" and t: "toggle_flag b r c = Inr b'"
  shows "win_ok b'"
proof (cases "b' = b")
  case True
  with k show ?thesis by simp
next
  case False
  with t obtain p where go: "\<not> game_over b"
    and cv: "check_victory (b\<lparr>flagged := upd (flagged b) p (\<not> at (flagged b) p)\<rparr>) = Inr b'"
    by (auto simp: toggle_flag_wf [OF w] split: if_splits option.splits)
  let ?b1 = "b\<lparr>flagged := upd (flagged b) p (\<not> at (flagged b) p)\<rparr>"
  have w1: "wf ?b1" using w by (simp add: wf_def shape_upd)
  from k go have "\<not> victory b" by (auto simp: win_ok_def)
  then show ?thesis using win_ok_check_victory [OF w1 _ _ cv] go by simp
qed

lemma win_ok_reveal:
  assumes w: "wf b" and l: "layout_ok b" and k: "win_ok b"
    and smp: "placed b \<or> sample_of (available b r c) (mines_count b) picked"
    and rv: "reveal b r c picked = Inr b'"
  shows "win_ok b'"
  using w smp rv
proof (cases rule: reveal_cases)
  case noop
  with k show ?thesis by simp
next
  case (mine p b1)
  have "inside (rows b1) (cols b1) (r, c)"
    using layout_ok_mines [OF layout_ok_placing [OF l mine(5)] mine(6)] .
  then have "wrap (rows b) (cols b) (r, c) = Some (r, c)"
    using placing_same [OF mine(5)] by (simp add: wrap_inside)
  with mine(1) have p: "p = (r, c)" by simp
  from w have shr: "shape (revealed b) (rows b) (cols b)" by (simp add: wf_def)
  have pin: "inside (rows b) (cols b) p" using mine(1) by (rule wrap_Some_inside)
  have "at (upd (revealed b) p True) p" using at_upd [OF shr pin pin] by simp
  with mine(6) p have "\<exists>q \<in> mines b'. at (revealed b') q" by (auto simp: mine(7))
  then show ?thesis by (simp add: win_ok_def mine(7))
next
  case (opened p b1 g)
  note same = placing_same [OF opened(5)]
  have w1: "wf (b1\<lparr>revealed := g\<rparr>)"
    using placing_wf [OF w opened(5)] opened(8) by (simp add: wf_def same)
  from k opened(2) have "\<not> victory b" by (auto simp: win_ok_def)
  then show ?thesis
    using win_ok_check_victory [OF w1 _ _ opened(9)] opened(2) by (simp add: same)
qed

lemma reachable_win_ok: "reachable b \<Longrightarrow> win_ok b"
proof (induction rule: reachable.induct)
  case (fresh r c k b)
  then show ?case by (rule win_ok_fresh)
next
  case (revealed b r c picked b')
  then show ?case
    using win_ok_reveal [OF reachable_wf reachable_layout_ok] by blast
next
  case (toggled b r c b')
  then show ?case using win_ok_toggle [OF reachable_wf] by blast
qed

text \<open>
  C2 (as amended). On every board reachable by reveal and toggle\_flag calls, victory is
  set only while the number of revealed cells equals \<open>rows * cols - mines_count\<close>; and when
  the number of revealed cells equals that value the board is won, or it was lost by
  revealing a mine, or it is still as reset left it (no call has changed it yet).
\<close>

theorem win_exactness:
  "reachable b \<Longrightarrow>
     (victory b \<longrightarrow> game_over b \<and> revealed_count b = rows b * cols b - mines_count b) \<and>
     (revealed_count b = rows b * cols b - mines_count b \<longrightarrow>
        victory b \<or> (game_over b \<and> (\<exists>p \<in> mines b. at (revealed b) p)) \<or> b = reset b)"
  using reachable_win_ok [of b] unfolding win_ok_def target_def by blast

lemma init_game_w0: "Board_init 1 4 1 = Inr game_w0"
  by (simp add: Board_init_def reset_def grid_def game_w0_def numeral_eq_Suc)

lemma sample_game_w0: "sample_of (available game_w0 0 0) (mines_count game_w0) [(0, 3)]"
  by code_simp

lemma reveal_game_w0: "reveal game_w0 0 0 [(0, 3)] = Inr game_won"
  by code_simp

lemma reachable_game_won: "reachable game_won"
  using reachable.revealed [OF reachable.fresh [OF init_game_w0] _ reveal_game_w0] sample_game_w0
  by blast

theorem win_exactness_witness:
  "reachable game_won \<and> victory game_won \<and> game_over game_won \<and>
     revealed_count game_won = 3 \<and> rows game_won * cols game_won - mines_count game_won = 3"
proof -
  have "revealed_count game_won = 3" by code_simp
  moreover have "rows game_won * cols game_won - mines_count game_won = 3"
    by (simp add: game_won_def)
  moreover have "victory game_won" by (simp add: game_won_def)
  ultimately show ?thesis using win_exactness [OF reachable_game_won] reachable_game_won by simp
qed

lemma reachable_game_lost: "reachable game_lost"
  using reachable.revealed [OF reachable_game1 _ reveal_game1] by (simp add: game1_def)

text \<open>
  The claim as written fails on a lost board: on the 1x5 board with mines at \<open>(0, 2)\<close> and
  \<open>(0, 4)\<close>, after \<open>(0, 0)\<close> was revealed (two cells open) the reveal of the mine at
  \<open>(0, 2)\<close> brings the count to \<open>3 = 1 * 5 - 2\<close>, and the outcome is lost, not won.
\<close>

theorem win_exactness_counterexample:
  "reachable game_lost \<and> revealed_count game_lost = rows game_lost * cols game_lost - mines_count game_lost
     \<and> \<not> victory game_lost \<and> reveal game1 0 2 [] = Inr game_lost \<and> revealed_count game1 = 2"
proof -
  have "revealed_count game_lost = 3" by code_simp
  moreover have "rows game_lost * cols game_lost - mines_count game_lost = 3"
    by (simp add: game_lost_def)
  moreover have "revealed_count game1 = 2" by code_simp
  moreover have "\<not> victory game_lost" by (simp add: game_lost_def)
  ultimately show ?thesis using reachable_game_lost reveal_game1 by simp
qed

lemma cascade_reveals_top:
  assumes w: "wf b" and s: "wrap (rows b) (cols b) s = Some p"
    and st: "\<forall>t \<in> set stack. wrap (rows b) (cols b) t \<noteq> None"
  shows "\<exists>rv. cascade b (s # stack) = Inr (b\<lparr>revealed := rv\<rparr>) \<and> shape rv (rows b) (cols b) \<and> at rv p"
proof -
  have pin: "inside (rows b) (cols b) p" using s by (rule wrap_Some_inside)
  from w have shr: "shape (revealed b) (rows b) (cols b)" by (simp add: wf_def)
  show ?thesis
  proof (cases "at (revealed b) p")
    case True
    have "\<forall>t \<in> set (s # stack). wrap (rows b) (cols b) t \<noteq> None" using s st by simp
    from cascade_total [OF w this] True pin show ?thesis by blast
  next
    case False
    let ?b1 = "b\<lparr>revealed := upd (revealed b) p True\<rparr>"
    let ?ns = "rev (filter (\<lambda>q. \<not> at (upd (revealed b) p True) q \<and> \<not> at (flagged b) q)
                 (neighbors b (fst s) (snd s))) @ stack"
    have w1: "wf ?b1" by (rule wf_reveal_upd [OF w])
    have top: "at (revealed ?b1) p" using at_upd [OF shr pin pin] by simp
    have ok: "\<forall>t \<in> set ?ns. wrap (rows ?b1) (cols ?b1) t \<noteq> None"
      using st neighbors_inside [of _ b "fst s" "snd s"] wrap_inside [of "rows b" "cols b"]
      by auto
    have st1: "\<forall>t \<in> set stack. wrap (rows ?b1) (cols ?b1) t \<noteq> None" using st by simp
    have pin1: "inside (rows ?b1) (cols ?b1) p" using pin by simp
    show ?thesis
    proof (cases "at (board b) p = 0")
      case True
      from cascade_total [OF w1 ok] obtain rv where
        rv: "cascade ?b1 ?ns = Inr (?b1\<lparr>revealed := rv\<rparr>)" "shape rv (rows ?b1) (cols ?b1)"
          "\<forall>q. inside (rows ?b1) (cols ?b1) q \<longrightarrow> at (revealed ?b1) q \<longrightarrow> at rv q"
        by blast
      from rv(3) pin1 top have "at rv p" by blast
      moreover have "cascade b (s # stack) = Inr (b\<lparr>revealed := rv\<rparr>)"
        using rv(1) False True by (simp add: cascade_step [OF w s])
      ultimately show ?thesis using rv(2) by auto
    next
      case nz: False
      from cascade_total [OF w1 st1] obtain rv where
        rv: "cascade ?b1 stack = Inr (?b1\<lparr>revealed := rv\<rparr>)" "shape rv (rows ?b1) (cols ?b1)"
          "\<forall>q. inside (rows ?b1) (cols ?b1) q \<longrightarrow> at (revealed ?b1) q \<longrightarrow> at rv q"
        by blast
      from rv(3) pin1 top have "at rv p" by blast
      moreover have "cascade b (s # stack) = Inr (b\<lparr>revealed := rv\<rparr>)"
        using rv(1) False nz by (simp add: cascade_step [OF w s])
      ultimately show ?thesis using rv(2) by auto
    qed
  qed
qed

lemma reveal_effective:
  assumes w: "wf b" and go: "\<not> game_over b" and p: "wrap (rows b) (cols b) (r, c) = Some p"
    and nf: "\<not> at (flagged b) p" and nr: "\<not> at (revealed b) p"
    and smp: "placed b \<or> sample_of (available b r c) (mines_count b) picked"
  shows "\<exists>b' b1. reveal b r c picked = Inr b' \<and> placing b r c picked b1 \<and>
           mines b' = mines b1 \<and> board b' = board b1 \<and> placed b' \<and> at (revealed b') p \<and>
           flagged b' = flagged b \<and> rows b' = rows b \<and> cols b' = cols b \<and>
           mines_count b' = mines_count b"
proof -
  have g: "reveal_guard b r c = Inr False"
    using go p nf nr by (simp add: reveal_guard_wf [OF w])
  obtain b1 where pm: "(if \<not> placed b then place_mines b r c picked else Inr b) = Inr b1"
    and pl: "placing b r c picked b1"
  proof (cases "placed b")
    case True
    then show ?thesis using that [of b] by (simp add: placing_def)
  next
    case False
    with smp have s: "sample_of (available b r c) (mines_count b) picked" by simp
    from place_mines_ok [OF w s] obtain g where
      "place_mines b r c picked = Inr (b\<lparr>mines := set picked, board := g, placed := True\<rparr>)"
      "placing b r c picked (b\<lparr>mines := set picked, board := g, placed := True\<rparr>)"
      using False s by (auto simp: placing_def)
    then show ?thesis using that False by simp
  qed
  note same = placing_same [OF pl]
  have w1: "wf b1" by (rule placing_wf [OF w pl])
  then have shr1: "shape (revealed b1) (rows b) (cols b)" by (simp add: wf_def same)
  have pin: "inside (rows b) (cols b) p" using p by (rule wrap_Some_inside)
  show ?thesis
  proof (cases "(r, c) \<in> mines b1")
    case True
    have s2: "set2 (revealed b1) r c True = Inr (upd (revealed b) p True)"
      using set2_shape [OF shr1, of r c True] p by (simp add: same)
    have "at (upd (revealed b) p True) p"
      using at_upd [OF shr1 pin pin, of True] by (simp add: same)
    moreover have "reveal b r c picked =
        Inr (b1\<lparr>revealed := upd (revealed b) p True, game_over := True, victory := False\<rparr>)"
      using g pm True s2 by (simp add: reveal_def)
    ultimately show ?thesis using pl same
      by (intro exI [of _ "b1\<lparr>revealed := upd (revealed b) p True, game_over := True,
            victory := False\<rparr>"] exI [of _ b1]) simp
  next
    case False
    have p1: "wrap (rows b1) (cols b1) (r, c) = Some p" using p by (simp add: same)
    from cascade_reveals_top [OF w1 p1, of "[]"] obtain rv where
      rv: "cascade b1 [(r, c)] = Inr (b1\<lparr>revealed := rv\<rparr>)" "shape rv (rows b) (cols b)" "at rv p"
      by (auto simp: same)
    have w2: "wf (b1\<lparr>revealed := rv\<rparr>)" using w1 rv(2) by (simp add: wf_def same)
    from check_victory_ok [OF w2] obtain b' where
      cv: "check_victory (b1\<lparr>revealed := rv\<rparr>) = Inr b'" by blast
    note cvs = check_victory_same [OF cv]
    have "reveal b r c picked = Inr b'" using g pm False rv(1) cv by (simp add: reveal_def)
    then show ?thesis using pl rv(3) same cvs by auto
  qed
qed

lemma unplaced_unrevealed:
  "reachable b \<Longrightarrow> \<not> placed b \<longrightarrow> revealed b = grid (rows b) (cols b) False"
proof (induction rule: reachable.induct)
  case (fresh r c k b)
  then show ?case by (auto simp: Board_init_def reset_def)
next
  case (revealed b r c picked b')
  from reachable_wf [OF revealed(1)] revealed(2,3) show ?case
  proof (cases rule: reveal_cases)
    case noop
    with revealed.IH show ?thesis by simp
  next
    case (mine p b1)
    then show ?thesis using placing_same(8) [OF mine(5)] by simp
  next
    case (opened p b1 g)
    then show ?thesis
      using placing_same(8) [OF opened(5)] check_victory_same(6) [OF opened(9)] by simp
  qed
next
  case (toggled b r c b')
  have w: "wf b" by (rule reachable_wf [OF toggled(1)])
  show ?case
  proof (cases "b' = b")
    case True
    with toggled.IH show ?thesis by simp
  next
    case False
    with toggled(2) obtain p where
      cv: "check_victory (b\<lparr>flagged := upd (flagged b) p (\<not> at (flagged b) p)\<rparr>) = Inr b'"
      by (auto simp: toggle_flag_wf [OF w] split: if_splits option.splits)
    note cvs = check_victory_same [OF cv]
    from toggled.IH show ?thesis by (simp add: cvs)
  qed
qed

text \<open>
  C5. On a board on which mines are not yet placed (freshly constructed, or with flags
  toggled since), a reveal of an in-bounds unflagged cell \<open>(r, c)\<close> with a feasible mine
  count returns with mines placed: exactly \<open>mines_count\<close> cells are mines, all of them cells
  of the grid, and neither \<open>(r, c)\<close> nor any of its in-bounds neighbours is one; \<open>picked\<close> is
  the outcome of \<^verbatim>\<open>random.sample\<close>, any list of \<open>mines_count\<close> distinct available cells.
\<close>

theorem first_reveal_safe:
  assumes "reachable b" "\<not> placed b" "\<not> game_over b" "in_bounds b r c"
    and "\<not> at (flagged b) (r, c)"
    and "sample_of (available b r c) (mines_count b) picked"
  shows "\<exists>b'. reveal b r c picked = Inr b' \<and> placed b' \<and>
           int (card (mines b')) = mines_count b \<and> mines b' \<subseteq> set (cells_of b) \<and>
           (r, c) \<notin> mines b' \<and> (\<forall>q \<in> set (neighbors b r c). q \<notin> mines b')"
proof -
  have w: "wf b" by (rule reachable_wf [OF assms(1)])
  have ins: "inside (rows b) (cols b) (r, c)" using assms(4) by (simp add: in_bounds_def inside_def)
  then have p: "wrap (rows b) (cols b) (r, c) = Some (r, c)" by (rule wrap_inside)
  have nr: "\<not> at (revealed b) (r, c)"
    using unplaced_unrevealed [OF assms(1)] assms(2) ins by (simp add: at_grid)
  from reveal_effective [OF w assms(3) p assms(5) nr] assms(6) obtain b' b1 where
    rv: "reveal b r c picked = Inr b'" and pl: "placing b r c picked b1"
    and m: "mines b' = mines b1" and pd: "placed b'"
    by blast
  from pl assms(2) have m1: "mines b1 = set picked" by (auto simp: placing_def)
  from assms(6) have len: "int (length picked) = mines_count b" and dist: "distinct picked"
    and sub: "set picked \<subseteq> set (available b r c)"
    by (simp_all add: sample_of_def)
  have card: "int (card (mines b')) = mines_count b"
    using len dist by (simp add: m m1 distinct_card)
  have cells: "mines b' \<subseteq> set (cells_of b)"
    using sub by (auto simp: m m1 available_def)
  have safe: "\<forall>q \<in> mines b'. q \<notin> safe_zone b r c"
    using sub by (auto simp: m m1 available_def)
  then have "(r, c) \<notin> mines b'" "\<forall>q \<in> set (neighbors b r c). q \<notin> mines b'"
    by (auto simp: safe_zone_def)
  with rv pd card cells show ?thesis by blast
qed

theorem first_reveal_safe_witness:
  "reachable game0 \<and> \<not> placed game0 \<and> \<not> game_over game0 \<and> in_bounds game0 0 0 \<and>
   \<not> at (flagged game0) (0, 0) \<and>
   sample_of (available game0 0 0) (mines_count game0) [(0, 2), (0, 4)] \<and>
   reveal game0 0 0 [(0, 2), (0, 4)] = Inr game1 \<and> mines game1 = {(0, 2), (0, 4)} \<and>
   neighbors game0 0 0 = [(0, 1)]"
proof -
  have r: "reachable game0" by (rule reachable.fresh [OF init_game0])
  have f: "\<not> placed game0" "\<not> game_over game0" "in_bounds game0 0 0"
    "\<not> at (flagged game0) (0, 0)"
    by (simp_all add: game0_def in_bounds_def at_def)
  have n: "neighbors game0 0 0 = [(0, 1)]" by code_simp
  have m: "mines game1 = {(0, 2), (0, 4)}" by (simp add: game1_def)
  from first_reveal_safe [OF r f sample_game0] r f sample_game0 reveal_game0 n m
  show ?thesis by simp
qed

lemma py_index_mod:
  "- r0 \<le> i \<Longrightarrow> i < r0 \<Longrightarrow> py_index (nat r0) i = Some (nat (i mod r0))"
proof (cases "0 \<le> i")
  case True
  assume "i < r0"
  with True show ?thesis by (simp add: py_index_def)
next
  case False
  assume a: "- r0 \<le> i" "i < r0"
  have "i mod r0 = (i + r0) mod r0" by simp
  also have "\<dots> = i + r0" using a False by (intro mod_pos_pos_trivial) simp_all
  finally have "i mod r0 = i + r0" .
  with False a show ?thesis by (simp add: py_index_def add.commute)
qed

lemma py_index_out: "\<not> (- r0 \<le> i \<and> i < r0) \<Longrightarrow> py_index (nat r0) i = None"
  by (auto simp: py_index_def)

lemma wrap_valid:
  assumes "valid_subscripts b r c"
  shows "wrap (rows b) (cols b) (r, c) = Some (wrapped b r c)"
proof -
  from assms have r: "- rows b \<le> r" "r < rows b" and c: "- cols b \<le> c" "c < cols b"
    by (simp_all add: valid_subscripts_def)
  from r have "0 \<le> r mod rows b" by simp
  moreover from c have "0 \<le> c mod cols b" by simp
  ultimately show ?thesis
    using py_index_mod [OF r] py_index_mod [OF c] by (simp add: wrap_def wrapped_def)
qed

lemma wrap_invalid:
  "\<not> valid_subscripts b r c \<Longrightarrow> wrap (rows b) (cols b) (r, c) = None"
  using py_index_out [of "rows b" r] py_index_out [of "cols b" c]
  by (auto simp: wrap_def valid_subscripts_def split: option.splits)






lemma subscripts_in_progress:
  assumes "wf b" "\<not> game_over b"
  shows "(\<not> valid_subscripts b r c \<longrightarrow>
            reveal b r c picked = Inl IndexError \<and> toggle_flag b r c = Inl IndexError) \<and>
         (valid_subscripts b r c \<longrightarrow>
            (\<exists>b'. toggle_flag b r c = Inr b' \<and> revealed b' = revealed b \<and>
               flagged b' = (if at (revealed b) (wrapped b r c) then flagged b
                             else upd (flagged b) (wrapped b r c)
                                    (\<not> at (flagged b) (wrapped b r c)))) \<and>
            (at (flagged b) (wrapped b r c) \<or> at (revealed b) (wrapped b r c) \<longrightarrow>
               reveal b r c picked = Inr b) \<and>
            (\<not> at (flagged b) (wrapped b r c) \<and> \<not> at (revealed b) (wrapped b r c) \<and>
             (placed b \<or> sample_of (available b r c) (mines_count b) picked) \<longrightarrow>
               (\<exists>b'. reveal b r c picked = Inr b' \<and> at (revealed b') (wrapped b r c) \<and>
                  flagged b' = flagged b)))"
proof (intro conjI impI)
  assume "\<not> valid_subscripts b r c"
  then have n: "wrap (rows b) (cols b) (r, c) = None" by (rule wrap_invalid)
  show "reveal b r c picked = Inl IndexError"
    using n assms(2) by (simp add: reveal_def reveal_guard_wf [OF assms(1)])
  show "toggle_flag b r c = Inl IndexError"
    using n assms(2) by (simp add: toggle_flag_wf [OF assms(1)])
next
  assume "valid_subscripts b r c"
  then have p: "wrap (rows b) (cols b) (r, c) = Some (wrapped b r c)" by (rule wrap_valid)
  let ?p = "wrapped b r c"
  show "\<exists>b'. toggle_flag b r c = Inr b' \<and> revealed b' = revealed b \<and>
               flagged b' = (if at (revealed b) ?p then flagged b
                             else upd (flagged b) ?p (\<not> at (flagged b) ?p))"
  proof (cases "at (revealed b) ?p")
    case True
    then show ?thesis using p assms(2) by (simp add: toggle_flag_wf [OF assms(1)])
  next
    case False
    let ?b1 = "b\<lparr>flagged := upd (flagged b) ?p (\<not> at (flagged b) ?p)\<rparr>"
    have w1: "wf ?b1" using assms(1) by (simp add: wf_def shape_upd)
    from check_victory_ok [OF w1] obtain b' where cv: "check_victory ?b1 = Inr b'" by blast
    note cvs = check_victory_same [OF cv]
    have "toggle_flag b r c = Inr b'"
      using p assms(2) False cv by (simp add: toggle_flag_wf [OF assms(1)])
    then show ?thesis using False cvs by simp
  qed
next
  assume "valid_subscripts b r c" and "at (flagged b) (wrapped b r c) \<or> at (revealed b) (wrapped b r c)"
  then show "reveal b r c picked = Inr b"
    using wrap_valid [of b r c] assms(2)
    by (simp add: reveal_def reveal_guard_wf [OF assms(1)])
next
  assume v: "valid_subscripts b r c"
    and h: "\<not> at (flagged b) (wrapped b r c) \<and> \<not> at (revealed b) (wrapped b r c) \<and>
            (placed b \<or> sample_of (available b r c) (mines_count b) picked)"
  from reveal_effective [OF assms(1,2) wrap_valid [OF v]] h
  show "\<exists>b'. reveal b r c picked = Inr b' \<and> at (revealed b') (wrapped b r c) \<and>
           flagged b' = flagged b"
    by blast
qed

lemma wf_game1: "wf game1"
  by (simp add: wf_def shape_def game1_def)

text \<open>
  C10 (as amended). \<^verbatim>\<open>reveal\<close> and \<^verbatim>\<open>toggle_flag\<close> never validate their coordinate. On a
  finished board both return the board unchanged for every coordinate: no subscript is
  read. On a board in progress whose grids are \<open>rows\<close> x \<open>cols\<close> (as \<^verbatim>\<open>reset\<close> builds them and
  every call keeps them), subscripts outside \<open>-rows \<le> r < rows\<close>, \<open>-cols \<le> c < cols\<close> (so
  every \<open>r \<ge> rows\<close> and every \<open>c \<ge> cols\<close>) make both calls raise IndexError. Subscripts
  inside that range, negative ones included, address the cell \<open>(r mod rows, c mod cols)\<close>:
  \<^verbatim>\<open>toggle_flag\<close> returns with that cell's flag flipped and nothing revealed, or with no
  flag changed when the cell is revealed; \<^verbatim>\<open>reveal\<close> returns the board unchanged when that
  cell is flagged or revealed. When it is neither, \<^verbatim>\<open>reveal\<close> returns with that cell
  revealed and no flag changed if mines are already placed or \<open>picked\<close> is a sample that
  \<^verbatim>\<open>random.sample\<close> can return, and it raises the ValueError of the sampling if mines are
  not yet placed and the mine count is negative or larger than the number of available
  cells.
\<close>

theorem subscripts_wrap:
  "(game_over b \<longrightarrow> reveal b r c picked = Inr b \<and> toggle_flag b r c = Inr b) \<and>
   (wf b \<and> \<not> game_over b \<longrightarrow>
      (\<not> valid_subscripts b r c \<longrightarrow>
         reveal b r c picked = Inl IndexError \<and> toggle_flag b r c = Inl IndexError) \<and>
      (valid_subscripts b r c \<longrightarrow>
         (\<exists>b'. toggle_flag b r c = Inr b' \<and> revealed b' = revealed b \<and>
            flagged b' = (if at (revealed b) (wrapped b r c) then flagged b
                          else upd (flagged b) (wrapped b r c)
                                 (\<not> at (flagged b) (wrapped b r c)))) \<and>
         (at (flagged b) (wrapped b r c) \<or> at (revealed b) (wrapped b r c) \<longrightarrow>
            reveal b r c picked = Inr b) \<and>
         (\<not> at (flagged b) (wrapped b r c) \<and> \<not> at (revealed b) (wrapped b r c) \<longrightarrow>
            (placed b \<or> sample_of (available b r c) (mines_count b) picked \<longrightarrow>
               (\<exists>b'. reveal b r c picked = Inr b' \<and> at (revealed b') (wrapped b r c) \<and>
                  flagged b' = flagged b)) \<and>
            (\<not> placed b \<and>
             (mines_count b < 0 \<or> int (length (available b r c)) < mines_count b) \<longrightarrow>
               reveal b r c picked = Inl ValueError))))"
proof (intro conjI impI)
  assume "game_over b"
  then show "reveal b r c picked = Inr b" by (simp add: reveal_def reveal_guard_def)
next
  assume "game_over b"
  then show "toggle_flag b r c = Inr b" by (simp add: toggle_flag_def)
next
  assume a: "wf b \<and> \<not> game_over b" and "\<not> valid_subscripts b r c"
  then show "reveal b r c picked = Inl IndexError"
    using subscripts_in_progress [of b r c picked] by blast
next
  assume a: "wf b \<and> \<not> game_over b" and "\<not> valid_subscripts b r c"
  then show "toggle_flag b r c = Inl IndexError"
    using subscripts_in_progress [of b r c picked] by blast
next
  assume a: "wf b \<and> \<not> game_over b" and "valid_subscripts b r c"
  then show "\<exists>b'. toggle_flag b r c = Inr b' \<and> revealed b' = revealed b \<and>
            flagged b' = (if at (revealed b) (wrapped b r c) then flagged b
                          else upd (flagged b) (wrapped b r c)
                                 (\<not> at (flagged b) (wrapped b r c)))"
    using subscripts_in_progress [of b r c picked] by blast
next
  assume a: "wf b \<and> \<not> game_over b" and "valid_subscripts b r c"
    and "at (flagged b) (wrapped b r c) \<or> at (revealed b) (wrapped b r c)"
  then show "reveal b r c picked = Inr b"
    using subscripts_in_progress [of b r c picked] by blast
next
  assume a: "wf b \<and> \<not> game_over b" and v: "valid_subscripts b r c"
    and n: "\<not> at (flagged b) (wrapped b r c) \<and> \<not> at (revealed b) (wrapped b r c)"
    and s: "placed b \<or> sample_of (available b r c) (mines_count b) picked"
  from a have w: "wf b" and go: "\<not> game_over b" by simp_all
  from reveal_effective [OF w go wrap_valid [OF v]] n s
  show "\<exists>b'. reveal b r c picked = Inr b' \<and> at (revealed b') (wrapped b r c) \<and>
           flagged b' = flagged b"
    by blast
next
  assume a: "wf b \<and> \<not> game_over b" and v: "valid_subscripts b r c"
    and n: "\<not> at (flagged b) (wrapped b r c) \<and> \<not> at (revealed b) (wrapped b r c)"
    and i: "\<not> placed b \<and>
             (mines_count b < 0 \<or> int (length (available b r c)) < mines_count b)"
  from a have w: "wf b" and go: "\<not> game_over b" by simp_all
  have g: "reveal_guard b r c = Inr False"
    using go wrap_valid [OF v] n by (simp add: reveal_guard_wf [OF w])
  from i have "place_mines b r c picked = Inl ValueError"
    by (intro place_mines_infeasible) simp
  with g i show "reveal b r c picked = Inl ValueError" by (simp add: reveal_def)
qed

theorem subscripts_wrap_witness:
  "wf game1 \<and> \<not> game_over game1 \<and> valid_subscripts game1 0 (- 1) \<and>
   wrapped game1 0 (- 1) = (0, 4) \<and> \<not> at (flagged game1) (0, 4) \<and> \<not> at (revealed game1) (0, 4) \<and>
   placed game1 \<and> reveal game1 0 (- 1) [] = Inr game1_wrapped \<and> at (revealed game1_wrapped) (0, 4) \<and>
   \<not> valid_subscripts game1 0 5 \<and> reveal game1 0 5 [] = Inl IndexError \<and>
   toggle_flag game1 0 5 = Inl IndexError \<and>
   wf tiny \<and> \<not> game_over tiny \<and> \<not> placed tiny \<and> valid_subscripts tiny (- 1) (- 1) \<and>
   wrapped tiny (- 1) (- 1) = (0, 0) \<and> \<not> at (flagged tiny) (0, 0) \<and> \<not> at (revealed tiny) (0, 0) \<and>
   int (length (available tiny (- 1) (- 1))) < mines_count tiny \<and>
   reveal tiny (- 1) (- 1) [] = Inl ValueError \<and>
   game_over game1_wrapped \<and> reveal game1_wrapped 0 9 [] = Inr game1_wrapped \<and>
   toggle_flag game1_wrapped 0 (- 9) = Inr game1_wrapped"
proof -
  have g: "\<not> game_over game1" "placed game1" by (simp_all add: game1_def)
  have v: "valid_subscripts game1 0 (- 1)" "\<not> valid_subscripts game1 0 5"
    by (simp_all add: valid_subscripts_def game1_def)
  have p: "wrapped game1 0 (- 1) = (0, 4)" by (simp add: wrapped_def game1_def)
  have a: "\<not> at (flagged game1) (0, 4)" "\<not> at (revealed game1) (0, 4)"
    by (simp_all add: at_def game1_def)
  have r: "reveal game1 0 (- 1) [] = Inr game1_wrapped" by code_simp
  have a': "at (revealed game1_wrapped) (0, 4)" by (simp add: at_def game1_wrapped_def)
  from subscripts_wrap [of game1 0 5 "[]"] wf_game1 g(1) v(2)
  have e: "reveal game1 0 5 [] = Inl IndexError" "toggle_flag game1 0 5 = Inl IndexError"
    by simp_all
  have wt: "wf tiny" by (simp add: wf_def shape_def tiny_def)
  have t: "\<not> game_over tiny" "\<not> placed tiny" "valid_subscripts tiny (- 1) (- 1)"
    "\<not> at (flagged tiny) (0, 0)" "\<not> at (revealed tiny) (0, 0)"
    by (simp_all add: tiny_def valid_subscripts_def at_def)
  have pt: "wrapped tiny (- 1) (- 1) = (0, 0)" by (simp add: wrapped_def tiny_def)
  have "available tiny (- 1) (- 1) = []" by code_simp
  then have inf: "int (length (available tiny (- 1) (- 1))) < mines_count tiny"
    by (simp add: tiny_def)
  from subscripts_wrap [of tiny "- 1" "- 1" "[]"] wt t pt inf
  have ve: "reveal tiny (- 1) (- 1) [] = Inl ValueError" by simp
  have go: "game_over game1_wrapped" by (simp add: game1_wrapped_def)
  from subscripts_wrap [of game1_wrapped 0 9 "[]"] go
  have f1: "reveal game1_wrapped 0 9 [] = Inr game1_wrapped" by simp
  from subscripts_wrap [of game1_wrapped 0 "- 9" "[]"] go
  have f2: "toggle_flag game1_wrapped 0 (- 9) = Inr game1_wrapped" by simp
  from wf_game1 g v p a r a' e wt t pt inf ve go f1 f2 show ?thesis by simp
qed

text \<open>
  The claim as written fails on a finished game: on the lost 1x5 board neither call reads
  a subscript, so \<open>c = 7\<close> raises nothing and \<open>c = -1\<close> leaves the wrapped cell \<open>(0, 4)\<close>
  as it was.
\<close>

theorem subscripts_counterexample:
  "reveal game_lost 0 7 [] = Inr game_lost \<and> toggle_flag game_lost 0 7 = Inr game_lost \<and>
   reveal game_lost 0 (- 1) [] = Inr game_lost \<and> toggle_flag game_lost 0 (- 1) = Inr game_lost \<and>
   \<not> at (revealed game_lost) (0, 4) \<and> \<not> at (flagged game_lost) (0, 4) \<and> cols game_lost = 5"
  by (simp add: reveal_def reveal_guard_def toggle_flag_def game_lost_def at_def)

lemma path_avoiding:
  assumes "(s, q) \<in> E\<^sup>*"
  shows "q = p \<or> (s, q) \<in> (avoiding E p)\<^sup>* \<or>
         (\<exists>y. (p, y) \<in> E \<and> y \<noteq> p \<and> (y, q) \<in> (avoiding E p)\<^sup>*)"
  using assms
proof (induction rule: rtrancl_induct)
  case base
  then show ?case by simp
next
  case (step x z)
  show ?case
  proof (cases "z = p")
    case True
    then show ?thesis by simp
  next
    case zp: False
    show ?thesis
    proof (cases "x = p")
      case True
      with step(2) zp have "(p, z) \<in> E \<and> z \<noteq> p \<and> (z, z) \<in> (avoiding E p)\<^sup>*" by simp
      then show ?thesis by blast
    next
      case xp: False
      with step(2) zp have e: "(x, z) \<in> avoiding E p" by (simp add: avoiding_def)
      from step.IH xp consider "(s, x) \<in> (avoiding E p)\<^sup>*"
        | y where "(p, y) \<in> E" "y \<noteq> p" "(y, x) \<in> (avoiding E p)\<^sup>*"
        by blast
      then show ?thesis
      proof cases
        case 1
        from 1 e have "(s, z) \<in> (avoiding E p)\<^sup>*" by (rule rtrancl_into_rtrancl)
        then show ?thesis by simp
      next
        case 2
        from 2(3) e have "(y, z) \<in> (avoiding E p)\<^sup>*" by (rule rtrancl_into_rtrancl)
        with 2(1,2) show ?thesis by blast
      qed
    qed
  qed
qed

lemma avoiding_subset: "(avoiding E p)\<^sup>* \<subseteq> E\<^sup>*"
  by (rule rtrancl_mono) (auto simp: avoiding_def)

lemma avoiding_from: "(p, q) \<in> (avoiding E p)\<^sup>* \<Longrightarrow> q = p"
  by (erule converse_rtranclE) (auto simp: avoiding_def)

lemma open_cell_upd:
  assumes w: "wf b" and p: "inside (rows b) (cols b) p"
  shows "open_cell (b\<lparr>revealed := upd (revealed b) p True\<rparr>) x \<longleftrightarrow> open_cell b x \<and> x \<noteq> p"
proof (cases "inside (rows b) (cols b) x")
  case True
  from w have shr: "shape (revealed b) (rows b) (cols b)" by (simp add: wf_def)
  from at_upd [OF shr p True, of True] True show ?thesis by (auto simp: open_cell_def)
next
  case False
  then show ?thesis by (simp add: open_cell_def)
qed

lemma spread_upd:
  assumes w: "wf b" and p: "inside (rows b) (cols b) p"
  shows "spread (b\<lparr>revealed := upd (revealed b) p True\<rparr>) = avoiding (spread b) p"
  by (auto simp: spread_def avoiding_def open_cell_upd [OF w p])

lemma revealed_cells_upd:
  assumes w: "wf b" and p: "inside (rows b) (cols b) p"
  shows "revealed_cells (b\<lparr>revealed := upd (revealed b) p True\<rparr>) = insert p (revealed_cells b)"
proof -
  from w have shr: "shape (revealed b) (rows b) (cols b)" by (simp add: wf_def)
  have "\<And>q. inside (rows b) (cols b) q \<Longrightarrow>
      at (upd (revealed b) p True) q = (q = p \<or> at (revealed b) q)"
    using at_upd [OF shr p, of _ True] by auto
  with p show ?thesis by (auto simp: revealed_cells_def)
qed

lemma reach_closed_cell: "\<not> open_cell b p \<Longrightarrow> reach b (insert p S) = reach b S"
  by (auto simp: reach_def)

lemma reach_step:
  assumes w: "wf b" and op: "open_cell b p"
  shows "reach b (insert p S) =
         insert p (reach (b\<lparr>revealed := upd (revealed b) p True\<rparr>) ({y. (p, y) \<in> spread b} \<union> S))"
proof -
  let ?b1 = "b\<lparr>revealed := upd (revealed b) p True\<rparr>"
  from op have pin: "inside (rows b) (cols b) p" by (simp add: open_cell_def)
  note sp = spread_upd [OF w pin]
  note oc = open_cell_upd [OF w pin]
  show ?thesis
  proof (intro set_eqI iffI)
    fix q assume "q \<in> reach b (insert p S)"
    then obtain s where s: "s \<in> insert p S" "open_cell b s" "(s, q) \<in> (spread b)\<^sup>*"
      unfolding reach_def by blast
    from path_avoiding [OF s(3), of p] consider "q = p"
      | "(s, q) \<in> (avoiding (spread b) p)\<^sup>*"
      | y where "(p, y) \<in> spread b" "y \<noteq> p" "(y, q) \<in> (avoiding (spread b) p)\<^sup>*"
      by blast
    then show "q \<in> insert p (reach ?b1 ({y. (p, y) \<in> spread b} \<union> S))"
    proof cases
      case 1
      then show ?thesis by simp
    next
      case 2
      show ?thesis
      proof (cases "s = p")
        case True
        with 2 have "q = p" by (auto dest: avoiding_from)
        then show ?thesis by simp
      next
        case False
        with s(1,2) have "s \<in> S" "open_cell ?b1 s" by (simp_all add: oc)
        with 2 have "q \<in> reach ?b1 ({y. (p, y) \<in> spread b} \<union> S)"
          unfolding reach_def sp by blast
        then show ?thesis by simp
      qed
    next
      case 3
      from 3(1) have "open_cell b y" by (simp add: spread_def)
      with 3(2) have "open_cell ?b1 y" by (simp add: oc)
      with 3(1,3) have "q \<in> reach ?b1 ({y. (p, y) \<in> spread b} \<union> S)"
        unfolding reach_def sp by blast
      then show ?thesis by simp
    qed
  next
    fix q assume "q \<in> insert p (reach ?b1 ({y. (p, y) \<in> spread b} \<union> S))"
    then consider "q = p"
      | s where "s \<in> {y. (p, y) \<in> spread b} \<union> S" "open_cell ?b1 s" "(s, q) \<in> (spread ?b1)\<^sup>*"
      unfolding reach_def by blast
    then show "q \<in> reach b (insert p S)"
    proof cases
      case 1
      with op show ?thesis unfolding reach_def by blast
    next
      case 2
      from 2(3) have path: "(s, q) \<in> (spread b)\<^sup>*"
        using avoiding_subset [of "spread b" p] by (auto simp: sp)
      from 2(2) have os: "open_cell b s" by (simp add: oc)
      show ?thesis
      proof (cases "s \<in> S")
        case True
        with os path show ?thesis unfolding reach_def by blast
      next
        case False
        with 2(1) have "(p, s) \<in> spread b" by simp
        from this path have "(p, q) \<in> (spread b)\<^sup>*" by (rule converse_rtrancl_into_rtrancl)
        with op show ?thesis unfolding reach_def by blast
      qed
    qed
  qed
qed

lemma pushed_set:
  assumes w: "wf b" and op: "open_cell b p" and z: "at (board b) p = 0"
  shows "set (filter (\<lambda>q. \<not> at (upd (revealed b) p True) q \<and> \<not> at (flagged b) q)
            (neighbors b (fst p) (snd p))) = {y. (p, y) \<in> spread b}"
proof -
  from op have pin: "inside (rows b) (cols b) p" by (simp add: open_cell_def)
  from w have shr: "shape (revealed b) (rows b) (cols b)" by (simp add: wf_def)
  have "\<And>q. inside (rows b) (cols b) q \<Longrightarrow> adjacent p q \<Longrightarrow>
      at (upd (revealed b) p True) q = at (revealed b) q"
    using at_upd [OF shr pin, of _ True] by (auto simp: adjacent_def)
  then show ?thesis
    using op z neighbors_set [of b "fst p" "snd p"]
    by (auto simp: spread_def open_cell_def)
qed

lemma cascade_reach:
  assumes "wf b" "\<forall>s \<in> set stack. wrap (rows b) (cols b) s \<noteq> None"
  shows "stack_open b stack \<longrightarrow>
         (\<forall>b'. cascade b stack = Inr b' \<longrightarrow>
            revealed_cells b' = revealed_cells b \<union> reach b (set stack))"
  using assms
proof (induction rule: cascade_induct_wf)
  case (empty b)
  then show ?case by (simp add: reach_def)
next
  case (seen b s p stack)
  show ?case
  proof (intro impI allI)
    fix b' assume so: "stack_open b (s # stack)" and c: "cascade b (s # stack) = Inr b'"
    from so have "inside (rows b) (cols b) s" by (simp add: stack_open_def)
    with seen(2) have ps: "p = s" by (simp add: wrap_inside)
    from so have so': "stack_open b stack" by (simp add: stack_open_def)
    from c seen(1-3) have "cascade b stack = Inr b'" by (simp add: cascade_step)
    with seen.IH so' have "revealed_cells b' = revealed_cells b \<union> reach b (set stack)" by blast
    moreover have "reach b (insert s (set stack)) = reach b (set stack)"
      using seen(3) ps by (intro reach_closed_cell) (simp add: open_cell_def)
    ultimately show "revealed_cells b' = revealed_cells b \<union> reach b (set (s # stack))" by simp
  qed
next
  case (spread b s p stack)
  let ?b1 = "b\<lparr>revealed := upd (revealed b) p True\<rparr>"
  let ?ns = "rev (filter (\<lambda>q. \<not> at (upd (revealed b) p True) q \<and> \<not> at (flagged b) q)
               (neighbors b (fst s) (snd s))) @ stack"
  show ?case
  proof (intro impI allI)
    fix b' assume so: "stack_open b (s # stack)" and c: "cascade b (s # stack) = Inr b'"
    from so have sin: "inside (rows b) (cols b) s" and sf: "\<not> at (flagged b) s"
      by (simp_all add: stack_open_def)
    with spread(2) have ps: "p = s" by (simp add: wrap_inside)
    have op: "open_cell b p" using sin sf spread(3) ps by (simp add: open_cell_def)
    from c spread(1-4) have c1: "cascade ?b1 ?ns = Inr b'" by (simp add: cascade_step)
    have so1: "stack_open ?b1 ?ns"
      using so neighbors_inside [of _ b "fst s" "snd s"] by (auto simp: stack_open_def)
    from spread.IH so1 c1
    have "revealed_cells b' = revealed_cells ?b1 \<union> reach ?b1 (set ?ns)" by blast
    moreover have "set ?ns = {y. (p, y) \<in> spread b} \<union> set stack"
      using pushed_set [OF spread(1) op spread(4)] ps by simp
    moreover have "revealed_cells ?b1 = insert p (revealed_cells b)"
      using revealed_cells_upd [OF spread(1)] sin ps by simp
    ultimately have "revealed_cells b' =
        revealed_cells b \<union> insert p (reach ?b1 ({y. (p, y) \<in> spread b} \<union> set stack))"
      by (simp only: Un_insert_left Un_insert_right)
    also have "insert p (reach ?b1 ({y. (p, y) \<in> spread b} \<union> set stack)) =
        reach b (insert p (set stack))"
      by (rule reach_step [OF spread(1) op, symmetric])
    finally show "revealed_cells b' = revealed_cells b \<union> reach b (set (s # stack))"
      by (simp add: ps)
  qed
next
  case (stop b s p stack)
  let ?b1 = "b\<lparr>revealed := upd (revealed b) p True\<rparr>"
  show ?case
  proof (intro impI allI)
    fix b' assume so: "stack_open b (s # stack)" and c: "cascade b (s # stack) = Inr b'"
    from so have sin: "inside (rows b) (cols b) s" and sf: "\<not> at (flagged b) s"
      by (simp_all add: stack_open_def)
    with stop(2) have ps: "p = s" by (simp add: wrap_inside)
    have op: "open_cell b p" using sin sf stop(3) ps by (simp add: open_cell_def)
    from c stop(1-4) have c1: "cascade ?b1 stack = Inr b'" by (simp add: cascade_step)
    have so1: "stack_open ?b1 stack" using so by (simp add: stack_open_def)
    from stop.IH so1 c1
    have "revealed_cells b' = revealed_cells ?b1 \<union> reach ?b1 (set stack)" by blast
    moreover have "revealed_cells ?b1 = insert p (revealed_cells b)"
      using revealed_cells_upd [OF stop(1)] sin ps by simp
    ultimately have "revealed_cells b' = revealed_cells b \<union> insert p (reach ?b1 (set stack))"
      by (simp only: Un_insert_left Un_insert_right)
    also have "{y. (p, y) \<in> spread b} = {}" using stop(4) by (simp add: spread_def)
    then have "insert p (reach ?b1 (set stack)) = reach b (insert p (set stack))"
      using reach_step [OF stop(1) op, of "set stack"] by (simp only: Un_empty_left)
    finally show "revealed_cells b' = revealed_cells b \<union> reach b (set (s # stack))"
      by (simp add: ps)
  qed
qed

lemma region_zero:
  assumes "q \<in> region b s" "inside (rows b) (cols b) s" "at (board b) s = 0"
  shows "inside (rows b) (cols b) q \<and> at (board b) q = 0"
proof -
  from assms(1) have "(s, q) \<in> (zero_link b)\<^sup>*" by (simp add: region_def)
  then show ?thesis using assms(2,3)
    by (induction rule: rtrancl_induct) (auto simp: zero_link_def)
qed

lemma reach_in_region_border:
  assumes s: "inside (rows b) (cols b) s" "at (board b) s = 0"
  shows "reach b {s} \<subseteq> region b s \<union> border b s"
proof
  fix q assume "q \<in> reach b {s}"
  then have path: "(s, q) \<in> (spread b)\<^sup>*" by (simp add: reach_def)
  then have "(at (board b) q = 0 \<longrightarrow> q \<in> region b s) \<and> (at (board b) q \<noteq> 0 \<longrightarrow> q \<in> border b s)"
  proof (induction rule: rtrancl_induct)
    case base
    then show ?case using s by (simp add: region_def)
  next
    case (step x y)
    from step(2) have x: "at (board b) x = 0" "inside (rows b) (cols b) x"
      and y: "inside (rows b) (cols b) y" and adj: "adjacent x y"
      by (simp_all add: spread_def open_cell_def)
    with step.IH have xr: "x \<in> region b s" by simp
    show ?case
    proof (intro conjI impI)
      assume "at (board b) y = 0"
      with x y adj have "(x, y) \<in> zero_link b" by (simp add: zero_link_def)
      with xr show "y \<in> region b s" unfolding region_def by (auto intro: rtrancl_into_rtrancl)
    next
      assume "at (board b) y \<noteq> 0"
      with y adj xr show "y \<in> border b s" unfolding border_def by blast
    qed
  qed
  then show "q \<in> region b s \<union> border b s" by blast
qed

lemma region_in_reach:
  assumes op: "\<forall>q \<in> region b s. open_cell b q"
  shows "q \<in> region b s \<Longrightarrow> (s, q) \<in> (spread b)\<^sup>*"
proof -
  assume "q \<in> region b s"
  then have "(s, q) \<in> (zero_link b)\<^sup>*" by (simp add: region_def)
  then show ?thesis
  proof (induction rule: rtrancl_induct)
    case base
    then show ?case by simp
  next
    case (step x y)
    from step(1) have xr: "x \<in> region b s" by (simp add: region_def)
    from step(1,2) have yr: "y \<in> region b s"
      unfolding region_def by (auto intro: rtrancl_into_rtrancl)
    from step(2) have "at (board b) x = 0" "adjacent x y" by (simp_all add: zero_link_def)
    with op xr yr have "(x, y) \<in> spread b" by (simp add: spread_def)
    with step.IH show ?case by (rule rtrancl_into_rtrancl)
  qed
qed

lemma reach_is_region_border:
  assumes s: "inside (rows b) (cols b) s" "at (board b) s = 0"
    and nf: "\<forall>q \<in> region b s \<union> border b s. \<not> at (flagged b) q"
    and nr: "\<forall>q \<in> region b s. \<not> at (revealed b) q"
  shows "revealed_cells b \<union> reach b {s} = revealed_cells b \<union> region b s \<union> border b s"
proof -
  have op: "\<forall>q \<in> region b s. open_cell b q"
    using region_zero [OF _ s] nf nr by (auto simp: open_cell_def)
  have sr: "s \<in> region b s" by (simp add: region_def)
  with op have os: "open_cell b s" by blast
  have a: "region b s \<subseteq> reach b {s}"
    using region_in_reach [OF op] os by (auto simp: reach_def)
  have b: "border b s \<subseteq> revealed_cells b \<union> reach b {s}"
  proof
    fix q assume q: "q \<in> border b s"
    then obtain x where x: "x \<in> region b s" "adjacent x q" and qin: "inside (rows b) (cols b) q"
      unfolding border_def by blast
    show "q \<in> revealed_cells b \<union> reach b {s}"
    proof (cases "at (revealed b) q")
      case True
      with qin show ?thesis by (simp add: revealed_cells_def)
    next
      case False
      with qin nf q have oq: "open_cell b q" by (simp add: open_cell_def)
      from region_zero [OF x(1) s] have "at (board b) x = 0" by simp
      with op x oq have "(x, q) \<in> spread b" by (simp add: spread_def)
      with region_in_reach [OF op x(1)] have "(s, q) \<in> (spread b)\<^sup>*"
        by (rule rtrancl_into_rtrancl)
      with os show ?thesis by (simp add: reach_def)
    qed
  qed
  from a b reach_in_region_border [OF s] show ?thesis by blast
qed

text \<open>
  C3 (as amended). On a board in progress with mines placed, a reveal of an in-bounds,
  unrevealed, unflagged non-mine cell \<open>(r, c)\<close> returns, and the cells revealed afterwards
  are those revealed before together with every cell that can be reached from \<open>(r, c)\<close> by
  steps from an unrevealed, unflagged zero-count cell to a neighbouring unrevealed,
  unflagged cell; flags and counts are unchanged. When \<open>(r, c)\<close> has count 0, no cell of
  its maximal connected zero-count region or of that region's border is flagged, and no
  cell of the region is already revealed, the revealed cells afterwards are those revealed
  before together with exactly the region and its border.
\<close>

theorem cascade_reveals_reachable:
  assumes "wf b" "placed b" "\<not> game_over b" "in_bounds b r c"
    and "\<not> at (revealed b) (r, c)" "\<not> at (flagged b) (r, c)" "(r, c) \<notin> mines b"
  shows "\<exists>b'. reveal b r c picked = Inr b' \<and> flagged b' = flagged b \<and> board b' = board b \<and>
           revealed_cells b' = revealed_cells b \<union> reach b {(r, c)} \<and>
           (at (board b) (r, c) = 0 \<and>
            (\<forall>q \<in> region b (r, c) \<union> border b (r, c). \<not> at (flagged b) q) \<and>
            (\<forall>q \<in> region b (r, c). \<not> at (revealed b) q) \<longrightarrow>
              revealed_cells b' = revealed_cells b \<union> region b (r, c) \<union> border b (r, c))"
proof -
  have ins: "inside (rows b) (cols b) (r, c)" using assms(4) by (simp add: in_bounds_def inside_def)
  then have p: "wrap (rows b) (cols b) (r, c) = Some (r, c)" by (rule wrap_inside)
  have g: "reveal_guard b r c = Inr False"
    using p assms(3,5,6) by (simp add: reveal_guard_wf [OF assms(1)])
  have st: "\<forall>s \<in> set [(r, c)]. wrap (rows b) (cols b) s \<noteq> None" using p by simp
  from cascade_total [OF assms(1) st] obtain rv where
    rv: "cascade b [(r, c)] = Inr (b\<lparr>revealed := rv\<rparr>)" "shape rv (rows b) (cols b)"
    by blast
  have so: "stack_open b [(r, c)]" using ins assms(6) by (simp add: stack_open_def)
  from cascade_reach [OF assms(1) st] so rv(1)
  have rc: "revealed_cells (b\<lparr>revealed := rv\<rparr>) = revealed_cells b \<union> reach b {(r, c)}"
    by simp
  have w2: "wf (b\<lparr>revealed := rv\<rparr>)" using assms(1) rv(2) by (simp add: wf_def)
  from check_victory_ok [OF w2] obtain b' where
    cv: "check_victory (b\<lparr>revealed := rv\<rparr>) = Inr b'" by blast
  note cvs = check_victory_same [OF cv]
  have r: "reveal b r c picked = Inr b'"
    using g assms(2,7) rv(1) cv by (simp add: reveal_def)
  have rc': "revealed_cells b' = revealed_cells b \<union> reach b {(r, c)}"
    using rc by (simp add: revealed_cells_def cvs)
  have "at (board b) (r, c) = 0 \<and>
        (\<forall>q \<in> region b (r, c) \<union> border b (r, c). \<not> at (flagged b) q) \<and>
        (\<forall>q \<in> region b (r, c). \<not> at (revealed b) q) \<longrightarrow>
        revealed_cells b' = revealed_cells b \<union> region b (r, c) \<union> border b (r, c)"
    using reach_is_region_border [OF ins] rc' by simp
  with r rc' cvs show ?thesis by simp
qed

lemma strip_inside:
  "inside 1 7 q \<longleftrightarrow> q \<in> {(0 :: int, 0 :: int), (0, 1), (0, 2), (0, 3), (0, 4), (0, 5), (0, 6)}"
proof
  assume a: "inside 1 7 q"
  obtain i j where q: "q = (i, j)" by (cases q)
  from a have b: "0 \<le> i" "i < 1" "0 \<le> j" "j < 7" by (simp_all add: inside_def q)
  from b(1,2) have "i = 0" by arith
  moreover from b(3,4) have "j = 0 \<or> j = 1 \<or> j = 2 \<or> j = 3 \<or> j = 4 \<or> j = 5 \<or> j = 6"
    by arith
  ultimately show "q \<in> {(0, 0), (0, 1), (0, 2), (0, 3), (0, 4), (0, 5), (0, 6)}"
    unfolding q by blast
next
  assume "q \<in> {(0, 0), (0, 1), (0, 2), (0, 3), (0, 4), (0, 5), (0, 6)}"
  then show "inside 1 7 q" by (auto simp: inside_def)
qed

lemma strip1_zero:
  "inside (rows strip1) (cols strip1) q \<and> at (board strip1) q = 0 \<longleftrightarrow>
     q \<in> {(0, 0), (0, 4), (0, 5), (0, 6)}"
proof -
  have "inside (rows strip1) (cols strip1) q = inside 1 7 q" by (simp add: strip1_def)
  then show ?thesis unfolding strip_inside by (auto simp: strip1_def at_def)
qed

lemma strip1_link_closed:
  assumes "(x, y) \<in> zero_link strip1" "x \<in> {(0, 4), (0, 5), (0, 6)}"
  shows "y \<in> {(0, 4), (0, 5), (0, 6)}"
proof -
  from assms(1) have "inside (rows strip1) (cols strip1) y \<and> at (board strip1) y = 0"
    and adj: "adjacent x y" by (simp_all add: zero_link_def)
  then have "y \<in> {(0, 0), (0, 4), (0, 5), (0, 6)}" by (simp only: strip1_zero)
  with adj assms(2) show ?thesis by (auto simp: adjacent_def)
qed

lemma strip1_links:
  "((0, 4), (0, 5)) \<in> zero_link strip1" "((0, 5), (0, 6)) \<in> zero_link strip1"
  by (simp_all add: zero_link_def inside_def adjacent_def at_def strip1_def)

lemma region_strip1: "region strip1 (0, 4) = {(0, 4), (0, 5), (0, 6)}"
proof (intro set_eqI iffI)
  fix q :: coord assume "q \<in> region strip1 (0, 4)"
  then have "((0, 4), q) \<in> (zero_link strip1)\<^sup>*" by (simp add: region_def)
  then show "q \<in> {(0, 4), (0, 5), (0, 6)}"
  proof (induction rule: rtrancl_induct)
    case base
    then show ?case by simp
  next
    case (step x y)
    from step(2) step.IH show ?case by (rule strip1_link_closed)
  qed
next
  fix q :: coord assume q: "q \<in> {(0, 4), (0, 5), (0, 6)}"
  have a: "((0, 4), (0, 5)) \<in> (zero_link strip1)\<^sup>*" using strip1_links(1) by blast
  then have "((0, 4), (0, 6)) \<in> (zero_link strip1)\<^sup>*"
    using strip1_links(2) by (rule rtrancl_into_rtrancl)
  with a q show "q \<in> region strip1 (0, 4)" by (auto simp: region_def)
qed

lemma border_strip1: "border strip1 (0, 4) = {(0, 3)}"
proof -
  have i: "\<And>q. inside (rows strip1) (cols strip1) q = inside 1 7 q" by (simp add: strip1_def)
  show ?thesis
    unfolding border_def region_strip1 i strip_inside
    by (auto simp: adjacent_def at_def strip1_def)
qed

lemma wf_strip1: "wf strip1"
  by (simp add: wf_def shape_def strip1_def)

lemma reveal_strip1: "reveal strip1 0 4 [] = Inr strip1_done"
  by code_simp

theorem cascade_reveals_reachable_witness:
  "wf strip1 \<and> placed strip1 \<and> \<not> game_over strip1 \<and> in_bounds strip1 0 4 \<and>
   \<not> at (revealed strip1) (0, 4) \<and> \<not> at (flagged strip1) (0, 4) \<and> (0, 4) \<notin> mines strip1 \<and>
   at (board strip1) (0, 4) = 0 \<and>
   region strip1 (0, 4) = {(0, 4), (0, 5), (0, 6)} \<and> border strip1 (0, 4) = {(0, 3)} \<and>
   reveal strip1 0 4 [] = Inr strip1_done \<and>
   revealed_cells strip1_done = revealed_cells strip1 \<union> region strip1 (0, 4) \<union> border strip1 (0, 4)"
proof -
  have h: "placed strip1" "\<not> game_over strip1" "in_bounds strip1 0 4"
    "\<not> at (revealed strip1) (0, 4)" "\<not> at (flagged strip1) (0, 4)" "(0, 4) \<notin> mines strip1"
    by (simp_all add: strip1_def in_bounds_def at_def)
  have z: "at (board strip1) (0, 4) = 0" by (simp add: strip1_def at_def)
  have nf: "\<forall>q \<in> region strip1 (0, 4) \<union> border strip1 (0, 4). \<not> at (flagged strip1) q"
    by (simp add: region_strip1 border_strip1) (simp add: strip1_def at_def)
  have nr: "\<forall>q \<in> region strip1 (0, 4). \<not> at (revealed strip1) q"
    by (simp add: region_strip1) (simp add: strip1_def at_def)
  from cascade_reveals_reachable [OF wf_strip1 h, of "[]"] obtain b' where
    b': "reveal strip1 0 4 [] = Inr b'"
    and imp: "at (board strip1) (0, 4) = 0 \<and>
            (\<forall>q \<in> region strip1 (0, 4) \<union> border strip1 (0, 4). \<not> at (flagged strip1) q) \<and>
            (\<forall>q \<in> region strip1 (0, 4). \<not> at (revealed strip1) q) \<longrightarrow>
              revealed_cells b' =
                revealed_cells strip1 \<union> region strip1 (0, 4) \<union> border strip1 (0, 4)"
    by blast
  from b' have "b' = strip1_done" by (simp add: reveal_strip1)
  with imp z nf nr have "revealed_cells strip1_done =
      revealed_cells strip1 \<union> region strip1 (0, 4) \<union> border strip1 (0, 4)"
    by blast
  with wf_strip1 h z region_strip1 border_strip1 reveal_strip1 show ?thesis by simp
qed

lemma init_strip0: "Board_init 1 7 1 = Inr strip0"
  by (simp add: Board_init_def reset_def grid_def strip0_def numeral_eq_Suc)

lemma reachable_strip2: "reachable strip2"
proof -
  have s: "sample_of (available strip0 0 0) (mines_count strip0) [(0, 2)]" by code_simp
  have r: "reveal strip0 0 0 [(0, 2)] = Inr strip1" by code_simp
  have t: "toggle_flag strip1 0 5 = Inr strip2" by code_simp
  have "reachable strip1"
    using reachable.revealed [OF reachable.fresh [OF init_strip0] _ r] s by blast
  then show ?thesis using t by (rule reachable.toggled)
qed

text \<open>
  The claim as written fails when a cell of the region is flagged: on the 1x7 board with
  its mine at \<open>(0, 2)\<close>, \<open>(0, 0)\<close> revealed and \<open>(0, 5)\<close> flagged, the zero-count region of
  \<open>(0, 4)\<close> holds \<open>(0, 6)\<close>, and the reveal of \<open>(0, 4)\<close> leaves \<open>(0, 6)\<close> unrevealed: the
  cascade does not pass the flagged cell.
\<close>

theorem cascade_counterexample:
  "reachable strip2 \<and> placed strip2 \<and> \<not> game_over strip2 \<and> in_bounds strip2 0 4 \<and>
   \<not> at (revealed strip2) (0, 4) \<and> \<not> at (flagged strip2) (0, 4) \<and> (0, 4) \<notin> mines strip2 \<and>
   at (board strip2) (0, 4) = 0 \<and> reveal strip2 0 4 [] = Inr strip2_after \<and>
   (0, 6) \<in> region strip2 (0, 4) \<and> \<not> at (revealed strip2_after) (0, 6)"
proof -
  have h: "placed strip2" "\<not> game_over strip2" "in_bounds strip2 0 4"
    "\<not> at (revealed strip2) (0, 4)" "\<not> at (flagged strip2) (0, 4)" "(0, 4) \<notin> mines strip2"
    "at (board strip2) (0, 4) = 0"
    by (simp_all add: strip2_def in_bounds_def at_def)
  have r: "reveal strip2 0 4 [] = Inr strip2_after" by code_simp
  have l: "((0, 4), (0, 5)) \<in> zero_link strip2" "((0, 5), (0, 6)) \<in> zero_link strip2"
    by (simp_all add: zero_link_def inside_def adjacent_def at_def strip2_def)
  from l(1) have "((0, 4), (0, 5)) \<in> (zero_link strip2)\<^sup>*" by blast
  then have "((0, 4), (0, 6)) \<in> (zero_link strip2)\<^sup>*" using l(2) by (rule rtrancl_into_rtrancl)
  then have g: "(0, 6) \<in> region strip2 (0, 4)" by (simp add: region_def)
  have n: "\<not> at (revealed strip2_after) (0, 6)" by (simp add: strip2_after_def at_def)
  from reachable_strip2 h r g n show ?thesis by simp
qed

text \<open>
  Where the two calls can raise. With mines placed, or with a possible sample at hand,
  \<^verbatim>\<open>reveal\<close> raises only the IndexError of its guard; an impossible mine count raises the
  ValueError of the sampling; \<^verbatim>\<open>toggle_flag\<close> raises only the IndexError of its guard.
  All three come before the first assignment of the call.
\<close>

lemma reveal_raises_in_guard:
  assumes w: "wf b" and smp: "placed b \<or> sample_of (available b r c) (mines_count b) picked"
    and e: "reveal b r c picked = Inl e"
  shows "reveal_guard b r c = Inl IndexError \<and> e = IndexError"
proof (cases "game_over b")
  case True
  with e show ?thesis by (simp add: reveal_def reveal_guard_def)
next
  case go: False
  show ?thesis
  proof (cases "wrap (rows b) (cols b) (r, c)")
    case None
    with e go show ?thesis by (simp add: reveal_def reveal_guard_wf [OF w])
  next
    case (Some p)
    show ?thesis
    proof (cases "at (flagged b) p \<or> at (revealed b) p")
      case True
      with e go Some show ?thesis by (simp add: reveal_def reveal_guard_wf [OF w])
    next
      case False
      with reveal_effective [OF w go Some _ _ smp] e show ?thesis by auto
    qed
  qed
qed

lemma reveal_raises_in_sampling:
  assumes "reveal_guard b r c = Inr False" "\<not> placed b"
    "mines_count b < 0 \<or> int (length (available b r c)) < mines_count b"
  shows "reveal b r c picked = Inl ValueError"
  using assms place_mines_infeasible [of b r c picked] by (simp add: reveal_def)

lemma toggle_flag_raises_in_guard:
  assumes w: "wf b" and e: "toggle_flag b r c = Inl e"
  shows "\<not> game_over b \<and> wrap (rows b) (cols b) (r, c) = None \<and> e = IndexError"
proof (cases "game_over b")
  case True
  with e show ?thesis by (simp add: toggle_flag_def)
next
  case go: False
  show ?thesis
  proof (cases "wrap (rows b) (cols b) (r, c)")
    case None
    with e go show ?thesis by (simp add: toggle_flag_wf [OF w])
  next
    case (Some p)
    let ?b1 = "b\<lparr>flagged := upd (flagged b) p (\<not> at (flagged b) p)\<rparr>"
    have "wf ?b1" using w by (simp add: wf_def shape_upd)
    from check_victory_ok [OF this] obtain b' where "check_victory ?b1 = Inr b'" by blast
    with e go Some show ?thesis by (simp add: toggle_flag_wf [OF w] split: if_splits)
  qed
qed

lemma shown_won: "end_game game_won = Inr game_won_shown"
  by code_simp

lemma view_won: "get_solver_board game_won_shown = Inr won_view"
  by code_simp

lemma shown_lost: "end_game game_lost = Inr game_lost_shown"
  by code_simp

lemma view_lost: "get_solver_board game_lost_shown = Inr lost_view"
  by code_simp

lemma solution_won_view: "solution won_view 1 4 = Inl ValueError"
  by (simp add: won_view_def solution_def scan_cells_def py_range_def upto.simps check_def
      get2_def py_get_def py_index_def UNSEEN_def FLAGGED_def py_int_def is_digit_def window_def)

lemma solution_lost_view:
  "check lost_view 0 2 1 5 = Inl ValueError \<and> solution lost_view 1 5 = Inl ValueError"
  by (simp add: lost_view_def solution_def scan_cells_def py_range_def upto.simps check_def
      get2_def py_get_def py_index_def UNSEEN_def FLAGGED_def py_int_def is_digit_def window_def)

text \<open>
  C4. A view with no unseen cell and no deduction, as the game produces it: the 1x4 board
  with its mine at \<open>(0, 3)\<close> is won by revealing \<open>(0, 0)\<close>, the end of the game reveals
  every cell, and the classifier writes the view \<open>0 0 1 *\<close>. The scan of that view does
  not end in the solver's own "no unseen square left" exception: it stops at the mine
  symbol with the ValueError of \<^verbatim>\<open>int('*')\<close>.
\<close>

theorem solution_won_view_value_error:
  "Board_init 1 4 1 = Inr game_w0 \<and> reveal game_w0 0 0 [(0, 3)] = Inr game_won \<and>
   end_game game_won = Inr game_won_shown \<and> get_solver_board game_won_shown = Inr won_view \<and>
   UNSEEN \<notin> set (concat won_view) \<and> solution won_view 1 4 = Inl ValueError"
  using init_game_w0 reveal_game_w0 shown_won view_won solution_won_view
  by (simp add: won_view_def UNSEEN_def)

text \<open>
  C7. A view with mine symbols, as the game produces it: on the 1x5 board with mines at
  \<open>(0, 2)\<close> and \<open>(0, 4)\<close> the reveal of \<open>(0, 2)\<close> loses the game, the end of the game reveals
  every cell, and the classifier writes the view \<open>0 1 * 2 *\<close>. \<^verbatim>\<open>check\<close> does not skip the
  mine cell: it is the call that fails, and its ValueError ends \<^verbatim>\<open>solution\<close>.
\<close>

theorem check_mine_cell_value_error:
  "reveal game1 0 2 [] = Inr game_lost \<and> end_game game_lost = Inr game_lost_shown \<and>
   get_solver_board game_lost_shown = Inr lost_view \<and>
   check lost_view 0 2 1 5 = Inl ValueError \<and> solution lost_view 1 5 = Inl ValueError"
  using reveal_game1 shown_lost view_lost solution_lost_view by simp

end
